theory Spec2Isabelle
  imports Main "HOL-Library.Word" "HOL-Library.Log_Nat"
begin

unbundle bit_operations_syntax

section \<open>The C library's stream, as mp4len.c uses it\<close>

text \<open>
  A stream opened with \<^verbatim>\<open>fopen(path, "rb")\<close> has the bytes that its reads deliver
  (\<open>content\<close>), the size that the file system reports for it (\<open>st_size\<close>, where a seek to
  \<^verbatim>\<open>SEEK_END\<close> lands) and a cursor (\<open>pos\<close>). For a regular file the reported size is the
  number of bytes; a directory, which \<^verbatim>\<open>fopen\<close> opens as well, reports a size and delivers
  nothing, and some files of \<^verbatim>\<open>sysfs\<close> report more than they deliver.

  \<^verbatim>\<open>fseek\<close> fails (returns nonzero) exactly when the resulting position would be
  negative; seeking past the end is allowed. \<^verbatim>\<open>fread\<close> delivers the bytes that are
  there, at most the count asked for, and \<^verbatim>\<open>fgetc\<close> returns the next byte as a value in
  0..255 or \<^verbatim>\<open>EOF\<close> (-1).

  \<open>reads\<close> is the log of the calls of \<^verbatim>\<open>fread\<close> on the stream, each with the offset it
  read from and the number of bytes it delivered. Nothing reads the log: it records which
  parts of the file the program has asked for.
\<close>

type_synonym byte = "8 word"

record FILE =
  content :: "byte list"
  st_size :: nat
  pos :: nat
  reads :: "(nat \<times> nat) list"

datatype whence = SEEK_SET | SEEK_CUR | SEEK_END

definition fseek :: "FILE \<Rightarrow> int \<Rightarrow> whence \<Rightarrow> FILE option" where
  "fseek fptr off w =
     (let base = (case w of SEEK_SET \<Rightarrow> 0
                          | SEEK_CUR \<Rightarrow> int (pos fptr)
                          | SEEK_END \<Rightarrow> int (st_size fptr));
          p = base + off
      in if p < 0 then None else Some (fptr\<lparr>pos := nat p\<rparr>))"

definition ftell :: "FILE \<Rightarrow> int" where
  "ftell fptr = int (pos fptr)"

definition fread :: "FILE \<Rightarrow> nat \<Rightarrow> byte list \<times> FILE" where
  "fread fptr n =
     (let bs = take n (drop (pos fptr) (content fptr))
      in (bs, fptr\<lparr>pos := pos fptr + length bs,
                    reads := reads fptr @ [(pos fptr, length bs)]\<rparr>))"

definition EOF :: int where
  "EOF = - 1"

definition fgetc :: "FILE \<Rightarrow> int \<times> FILE" where
  "fgetc fptr =
     (if pos fptr < length (content fptr)
      then (uint (content fptr ! pos fptr), fptr\<lparr>pos := pos fptr + 1\<rparr>)
      else (EOF, fptr))"

text \<open>
  \<^verbatim>\<open>exit(n)\<close> after a message on standard error ends the program: a function that can
  reach one returns \<open>Inl (Fatal n message)\<close>.
\<close>

datatype fatal = Fatal (exit_status: int) (message: string)

definition nl :: string where
  "nl = [CHR 0x0A]"

definition MIN_SIZE :: int where
  "MIN_SIZE = 51"

definition BLOCK_SIZE :: int where
  "BLOCK_SIZE = 16384"

text \<open>
  The integer types of the C code on the platform its comments name (x86, little endian;
  64-bit Linux): \<^verbatim>\<open>int\<close> has 32 bits, \<^verbatim>\<open>long\<close> and \<^verbatim>\<open>long long\<close> have 64 bits. Unsigned
  arithmetic wraps; a conversion to a signed type of the same width reads the bits as two's
  complement.
\<close>

definition ulong :: "int \<Rightarrow> int" where
  "ulong x = take_bit 64 x"

definition slong :: "int \<Rightarrow> int" where
  "slong x = signed_take_bit 63 x"

text \<open>C's \<^verbatim>\<open>/\<close> and \<^verbatim>\<open>%\<close> on signed operands truncate towards zero.\<close>

definition c_div :: "int \<Rightarrow> int \<Rightarrow> int" where
  "c_div a b = sgn a * sgn b * (\<bar>a\<bar> div \<bar>b\<bar>)"

definition c_mod :: "int \<Rightarrow> int \<Rightarrow> int" where
  "c_mod a b = a - b * c_div a b"

section \<open>has_mp4_magic (mp4len.c, lines 30-61)\<close>

text \<open>
  The union overlays \<^verbatim>\<open>char c[8]\<close> and \<^verbatim>\<open>unsigned long long ull\<close>. On the little-endian
  host that the source's comment assumes, \<^verbatim>\<open>c[0]\<close> is the least significant byte of
  \<^verbatim>\<open>ull\<close>.
\<close>

fun union_ull :: "byte list \<Rightarrow> 64 word" where
  "union_ull [] = 0"
| "union_ull (b # bs) = ucast b OR push_bit 8 (union_ull bs)"

definition has_mp4_magic :: "FILE \<Rightarrow> fatal + (int \<times> FILE)" where
  "has_mp4_magic fptr =
     (case fseek fptr 4 SEEK_SET of
        None \<Rightarrow> Inl (Fatal 10 (''Problem accessing file'' @ nl))
      | Some f1 \<Rightarrow>
          (case fread f1 8 of (c, f2) \<Rightarrow>
             if length c \<noteq> 8 then Inl (Fatal 11 (''Problem reading file'' @ nl))
             else if union_ull c = 0x6D6F736970797466 \<or> union_ull c = 0x3234706D70797466
               then Inr (1, f2)
               else Inr (0, f2)))"

section \<open>move_to_header (mp4len.c, lines 66-163)\<close>

text \<open>
  The allocation of the block buffer is taken to succeed, so \<^verbatim>\<open>exit(20)\<close> has no
  counterpart here. \<open>hdr\<close> is the tag \<^verbatim>\<open>mvhd\<close>.
\<close>

definition hdr :: "byte list" where
  "hdr = [0x6D, 0x76, 0x68, 0x64]"

text \<open>
  Lines 77-81: the number of blocks that cover the file.
\<close>

definition n_blocks_of :: "int \<Rightarrow> int" where
  "n_blocks_of fsize =
     (let n_blocks = c_div fsize BLOCK_SIZE
      in if c_mod fsize BLOCK_SIZE > 0 then n_blocks + 1 else n_blocks)"

text \<open>
  Lines 91-106: the seek at the start of iteration \<open>xx\<close>. \<open>ii\<close> and \<open>xx\<close> are
  \<^verbatim>\<open>unsigned long\<close>, \<open>n_blocks\<close> is \<^verbatim>\<open>long\<close> and is converted to \<^verbatim>\<open>unsigned long\<close> in
  \<open>ii - n_blocks\<close>; the product wraps and is passed to \<^verbatim>\<open>fseek\<close> as a \<^verbatim>\<open>long\<close>.
\<close>

definition seek_block :: "FILE \<Rightarrow> int \<Rightarrow> int \<Rightarrow> fatal + FILE" where
  "seek_block fptr n_blocks xx =
     (if xx mod 2 \<noteq> 0 then
        (let ii = ulong (ulong n_blocks - 1 - (xx - 1) div 2)
         in case fseek fptr (slong (ulong ((ii - ulong n_blocks) * BLOCK_SIZE))) SEEK_END of
              None \<Rightarrow> Inl (Fatal 21 (''Problem accessing file'' @ nl))
            | Some f1 \<Rightarrow> Inr f1)
      else
        (let ii = xx div 2
         in case fseek fptr (slong (ulong (ii * BLOCK_SIZE))) SEEK_SET of
              None \<Rightarrow> Inl (Fatal 22 (''Problem accessing file'' @ nl))
            | Some f1 \<Rightarrow> Inr f1))"

text \<open>
  Lines 119-136: the scan of one block. \<open>search_block buf jj chars_matching\<close> runs the
  \<^verbatim>\<open>for\<close> loop from index \<open>jj\<close> over the bytes \<open>buf\<close> that remain; it returns \<open>Inl jj\<close>
  when the streak reaches 4 at index \<open>jj\<close>, and \<open>Inr chars_matching\<close> when the block is
  exhausted.
\<close>

fun search_block :: "byte list \<Rightarrow> nat \<Rightarrow> nat \<Rightarrow> nat + nat" where
  "search_block [] jj chars_matching = Inr chars_matching"
| "search_block (b # buf) jj chars_matching =
     (if b = hdr ! chars_matching then
        (if chars_matching + 1 = 4 then Inl jj
         else search_block buf (jj + 1) (chars_matching + 1))
      else search_block buf (jj + 1) 0)"

text \<open>
  Lines 141-151: a streak that is open at the end of the block is continued with single
  bytes from the stream.
\<close>

function check_remaining :: "FILE \<Rightarrow> nat \<Rightarrow> nat \<times> FILE" where
  "check_remaining fptr chars_matching =
     (if chars_matching \<noteq> 0 \<and> chars_matching \<noteq> 4 then
        (case fgetc fptr of (c, f1) \<Rightarrow>
           if c = uint (hdr ! chars_matching) then check_remaining f1 (chars_matching + 1)
           else (0, f1))
      else (chars_matching, fptr))"
  by pat_completeness auto
termination
  apply (relation "measure (\<lambda>(fptr, cm). length (content fptr) - pos fptr)")
   apply simp
  apply (auto simp: fgetc_def EOF_def split: if_splits)
  apply (metis uint_ge_0 not_one_le_zero neg_0_le_iff_le)
  done

declare check_remaining.simps [simp del]

text \<open>
  Lines 89-159: the loop over the blocks, from iteration \<open>xx\<close> on. The result is
  \<open>Inr (0, f)\<close> for \<^verbatim>\<open>return 0\<close> with the stream \<open>f\<close>, \<open>Inr (1, f)\<close> for \<^verbatim>\<open>return 1\<close>.
  \<open>xx < n_blocks\<close> compares as \<^verbatim>\<open>unsigned long\<close>.
\<close>

function block_loop :: "FILE \<Rightarrow> int \<Rightarrow> int \<Rightarrow> int \<Rightarrow> fatal + (int \<times> FILE)" where
  "block_loop fptr fsize n_blocks xx =
     (if xx < ulong n_blocks then
        (case seek_block fptr n_blocks xx of
           Inl e \<Rightarrow> Inl e
         | Inr f1 \<Rightarrow>
            (case fread f1 (nat BLOCK_SIZE) of (buf, f2) \<Rightarrow>
               let buf_len = int (length buf) in
               if buf_len < BLOCK_SIZE \<and> buf_len < fsize
               then Inl (Fatal 23 (''Problem reading file'' @ nl))
               else
                 (case search_block buf 0 0 of
                    Inl jj \<Rightarrow>
                      (case fseek f2 (- buf_len + int jj + 1) SEEK_CUR of
                         None \<Rightarrow> Inl (Fatal 24 (''Problem accessing file'' @ nl))
                       | Some f3 \<Rightarrow> Inr (0, f3))
                  | Inr chars_matching \<Rightarrow>
                      (case (if chars_matching > 0 then check_remaining f2 chars_matching
                             else (chars_matching, f2)) of
                         (cm, f3) \<Rightarrow>
                           if cm = 4 then Inr (0, f3)
                           else block_loop f3 fsize n_blocks (xx + 1)))))
      else Inr (1, fptr))"
  by pat_completeness auto
termination
  by (relation "measure (\<lambda>(fptr, fsize, n_blocks, xx). nat (ulong n_blocks - xx))") auto

declare block_loop.simps [simp del]

definition move_to_header :: "FILE \<Rightarrow> int \<Rightarrow> fatal + (int \<times> FILE)" where
  "move_to_header fptr fsize = block_loop fptr fsize (n_blocks_of fsize) 0"

section \<open>Floating point, as far as line 239 needs it\<close>

text \<open>
  \<^verbatim>\<open>float\<close> and \<^verbatim>\<open>double\<close> are IEEE 754 binary32 and binary64 with round to nearest, ties
  to even. A finite value is the rational number it denotes. Only non-negative operands
  occur, every value that occurs is 0 or lies between \<open>2 ^ -64\<close> and \<open>2 ^ 64\<close>, so neither
  overflow nor subnormal numbers arise, and what remains of the formats is the number of
  significant bits: 24 and 53.
\<close>

datatype fpval = FNum rat | FInf | FNaN

definition round_even :: "rat \<Rightarrow> int" where
  "round_even x =
     (let f = \<lfloor>x\<rfloor>; d = x - of_int f
      in if d < 1 / 2 then f else if 1 / 2 < d then f + 1
         else if even f then f else f + 1)"

text \<open>For \<open>x > 0\<close>, the exponent \<open>e\<close> with \<open>2 ^ e \<le> x < 2 ^ (e + 1)\<close>.\<close>

definition exponent_of :: "rat \<Rightarrow> int" where
  "exponent_of x =
     (case quotient_of x of (a, b) \<Rightarrow>
        let e0 = bitlen a - bitlen b
        in if 2 powi e0 \<le> x then e0 else e0 - 1)"

definition round_to :: "nat \<Rightarrow> rat \<Rightarrow> rat" where
  "round_to p x =
     (if x = 0 then 0
      else let ulp = 2 powi (exponent_of x - int p + 1)
           in of_int (round_even (x / ulp)) * ulp)"

text \<open>The conversions of a non-negative integer to \<^verbatim>\<open>float\<close> and to \<^verbatim>\<open>double\<close>.\<close>

definition to_float :: "int \<Rightarrow> rat" where
  "to_float n = round_to 24 (of_int n)"

definition to_double :: "int \<Rightarrow> rat" where
  "to_double n = round_to 53 (of_int n)"

text \<open>Division of two finite non-negative doubles: \<open>x / 0\<close> is infinity, \<open>0 / 0\<close> is NaN.\<close>

definition double_div :: "rat \<Rightarrow> rat \<Rightarrow> fpval" where
  "double_div a b =
     (if b = 0 then (if a = 0 then FNaN else FInf)
      else FNum (round_to 53 (a / b)))"

section \<open>get_mp4_len (mp4len.c, lines 166-241)\<close>

text \<open>
  Lines 181-198: the version byte and the skip over flags and dates. The result is the
  version (an \<^verbatim>\<open>int\<close>: a byte, or \<^verbatim>\<open>EOF\<close>) and the stream.
\<close>

definition skip_to_timescale :: "FILE \<Rightarrow> fatal + (int \<times> FILE)" where
  "skip_to_timescale fptr =
     (case fgetc fptr of (version, f1) \<Rightarrow>
        if version = 1 then
          (case fseek f1 19 SEEK_CUR of
             None \<Rightarrow> Inl (Fatal 31 (''Problem accessing file'' @ nl))
           | Some f2 \<Rightarrow> Inr (version, f2))
        else
          (case fseek f1 11 SEEK_CUR of
             None \<Rightarrow> Inl (Fatal 32 (''Problem accessing file'' @ nl))
           | Some f2 \<Rightarrow> Inr (version, f2)))"

text \<open>
  \<^verbatim>\<open>b3 + (b2<<8) + (b1<<16) + (b0<<24)\<close> on \<^verbatim>\<open>unsigned char\<close> operands: each is promoted
  to \<^verbatim>\<open>int\<close>, and the sum is an \<^verbatim>\<open>int\<close>. ISO C leaves \<^verbatim>\<open>b0<<24\<close> undefined when \<^verbatim>\<open>b0\<close>
  has its high bit set; the compilers of the platform produce the wrapped two's-complement
  value, which is what this definition gives.
\<close>

definition int_of_bytes :: "byte \<Rightarrow> byte \<Rightarrow> byte \<Rightarrow> byte \<Rightarrow> 32 word" where
  "int_of_bytes b0 b1 b2 b3 =
     ucast b3 + push_bit 8 (ucast b2) + push_bit 16 (ucast b1) + push_bit 24 (ucast b0)"

text \<open>
  Line 207: the \<^verbatim>\<open>int\<close> is converted to \<^verbatim>\<open>unsigned long\<close>, which extends its sign.
\<close>

definition unit_per_sec_of :: "byte list \<Rightarrow> 64 word" where
  "unit_per_sec_of buf = scast (int_of_bytes (buf ! 0) (buf ! 1) (buf ! 2) (buf ! 3))"

text \<open>
  Lines 232-236: the first four summands are added as \<^verbatim>\<open>int\<close>; that sum is converted to
  \<^verbatim>\<open>unsigned long long\<close> when the first cast operand is added.
\<close>

definition len_unit_of :: "byte list \<Rightarrow> 64 word" where
  "len_unit_of buf =
     scast (int_of_bytes (buf ! 4) (buf ! 5) (buf ! 6) (buf ! 7))
     + push_bit 32 (ucast (buf ! 3))
     + push_bit 40 (ucast (buf ! 2))
     + push_bit 48 (ucast (buf ! 1))
     + push_bit 56 (ucast (buf ! 0))"

text \<open>
  Lines 200-236: timescale and duration. After the first read \<^verbatim>\<open>buf[0..3]\<close> hold the
  timescale; the second read fills all of \<^verbatim>\<open>buf\<close> (version 1) or \<^verbatim>\<open>buf[4..7]\<close>, with
  \<^verbatim>\<open>buf[0..3]\<close> set to zero.
\<close>

definition read_fields :: "int \<Rightarrow> FILE \<Rightarrow> fatal + (64 word \<times> 64 word \<times> FILE)" where
  "read_fields version fptr =
     (case fread fptr 4 of (buf, f1) \<Rightarrow>
        if length buf \<noteq> 4 then Inl (Fatal 33 (''Problem reading file'' @ nl))
        else
          let unit_per_sec = unit_per_sec_of buf in
          if version = 1 then
            (case fread f1 8 of (buf', f2) \<Rightarrow>
               if length buf' \<noteq> 8 then Inl (Fatal 34 (''Problem reading file'' @ nl))
               else Inr (unit_per_sec, len_unit_of buf', f2))
          else
            (case fread f1 4 of (buf', f2) \<Rightarrow>
               if length buf' \<noteq> 4 then Inl (Fatal 34 (''Problem reading file'' @ nl))
               else Inr (unit_per_sec, len_unit_of ([0, 0, 0, 0] @ buf'), f2)))"

text \<open>Line 239: \<^verbatim>\<open>(double)len_unit / (float)unit_per_sec\<close>.\<close>

definition len_sec_of :: "64 word \<Rightarrow> 64 word \<Rightarrow> fpval" where
  "len_sec_of len_unit unit_per_sec =
     double_div (to_double (uint len_unit)) (to_float (uint unit_per_sec))"

definition get_mp4_len :: "FILE \<Rightarrow> int \<Rightarrow> fatal + (fpval \<times> FILE)" where
  "get_mp4_len fptr fsize =
     (case move_to_header fptr fsize of
        Inl e \<Rightarrow> Inl e
      | Inr (r, f1) \<Rightarrow>
          if r \<noteq> 0 then Inl (Fatal 30 (''Could not find header.'' @ nl))
          else
            (case skip_to_timescale f1 of
               Inl e \<Rightarrow> Inl e
             | Inr (version, f2) \<Rightarrow>
                 (case read_fields version f2 of
                    Inl e \<Rightarrow> Inl e
                  | Inr (unit_per_sec, len_unit, f3) \<Rightarrow>
                      Inr (len_sec_of len_unit unit_per_sec, f3))))"

section \<open>main (mp4len.c, lines 243-294)\<close>

text \<open>
  The program's run: its exit code, what it wrote to standard error, and the values it
  printed to standard output, each with the format \<^verbatim>\<open>"%f\n"\<close>. The file system maps a
  path to the stream that \<^verbatim>\<open>fopen\<close> returns for it, or to \<open>None\<close> where \<^verbatim>\<open>fopen\<close> fails.
\<close>

record outcome =
  exit_code :: int
  stdout :: "fpval list"
  stderr :: string

fun show_nat :: "nat \<Rightarrow> string" where
  "show_nat n =
     (if n < 10 then [char_of (48 + n)]
      else show_nat (n div 10) @ [char_of (48 + n mod 10)])"

definition show_int :: "int \<Rightarrow> string" where
  "show_int i = (if i < 0 then ''-'' @ show_nat (nat (- i)) else show_nat (nat i))"

definition main :: "string list \<Rightarrow> (string \<Rightarrow> FILE option) \<Rightarrow> outcome" where
  "main argv fs =
     (if int (length argv) < 2 then
        \<lparr>exit_code = 1, stdout = [],
         stderr = argv ! 0 @ '': missing argument'' @ nl @ nl
           @ ''Prints the length of an mp4 video in seconds.'' @ nl
           @ ''mp4len version 2023-09-05'' @ nl
           @ ''Copyright (C) 2023 Nicholas A. Masluk, nick@randombytes.net'' @ nl\<rparr>
      else
        (case fs (argv ! 1) of
           None \<Rightarrow>
             \<lparr>exit_code = 2, stdout = [],
              stderr = argv ! 0 @ '': '' @ argv ! 1 @ '': no such file'' @ nl\<rparr>
         | Some fptr0 \<Rightarrow>
             (case (case fseek fptr0 0 SEEK_END of
                      None \<Rightarrow> (fptr0,
                                argv ! 0 @ '': '' @ argv ! 1 @ '': problem accessing file'' @ nl)
                    | Some f \<Rightarrow> (f, [])) of
                (fptr, err) \<Rightarrow>
                  let fsize = ftell fptr in
                  if fsize < MIN_SIZE then
                    \<lparr>exit_code = 3, stdout = [],
                     stderr = err @ argv ! 0 @ '': '' @ argv ! 1 @ '': file size too small, ''
                       @ show_int fsize @ '' bytes'' @ nl\<rparr>
                  else
                    (case has_mp4_magic fptr of
                       Inl e \<Rightarrow>
                         \<lparr>exit_code = exit_status e, stdout = [], stderr = err @ message e\<rparr>
                     | Inr (r, f1) \<Rightarrow>
                         if r = 0 then
                           \<lparr>exit_code = 4, stdout = [],
                            stderr = err @ argv ! 0 @ '': '' @ argv ! 1
                              @ '': MP4 file format not valid'' @ nl\<rparr>
                         else
                           (case get_mp4_len f1 fsize of
                              Inl e \<Rightarrow>
                                \<lparr>exit_code = exit_status e, stdout = [],
                                 stderr = err @ message e\<rparr>
                            | Inr (vlen, f2) \<Rightarrow>
                                \<lparr>exit_code = 0, stdout = [vlen], stderr = err\<rparr>)))))"

section \<open>Sample files\<close>

text \<open>
  \<open>ascii\<close> gives the bytes of an ASCII string. \<open>sample_file\<close> is a small MP4-shaped file:
  a box size, the signature \<^verbatim>\<open>ftypisom\<close> at offset 4, padding, one byte before the tag, the
  tag \<^verbatim>\<open>mvhd\<close> at offset 40, then the version byte with the skipped fields, the timescale
  and the duration. \<open>v0_file\<close> has version 0, timescale 1000 and duration 5000.
\<close>

definition ascii :: "string \<Rightarrow> byte list" where
  "ascii s = map of_char s"

definition sample_file :: "byte \<Rightarrow> byte list \<Rightarrow> byte list \<Rightarrow> byte list \<Rightarrow> byte list" where
  "sample_file before version_etc timescale duration =
     [0, 0, 0, 0x20] @ ascii ''ftypisom'' @ replicate 27 0 @ [before] @ ascii ''mvhd''
       @ version_etc @ timescale @ duration"

definition v0_file :: "byte list" where
  "v0_file = sample_file 0 (replicate 12 0) [0, 0, 0x03, 0xE8] [0, 0, 0x13, 0x88]"


text \<open>Files of two and of three blocks without the tag: 16385 and 40000 zero bytes.\<close>

definition two_block_file :: "byte list" where
  "two_block_file = replicate 16385 0"

definition three_block_file :: "byte list" where
  "three_block_file = replicate 40000 0"

text \<open>
  \<open>regular_file\<close> is the stream that \<^verbatim>\<open>fopen\<close> returns for a regular file with the given
  bytes, \<open>directory\<close> the one it returns for a directory (on Linux the seek to the end of a
  directory lands at \<open>2 ^ 63 - 1\<close>), and \<open>one_file\<close> a file system with a single path.
\<close>

definition regular_file :: "byte list \<Rightarrow> FILE" where
  "regular_file bytes = \<lparr>content = bytes, st_size = length bytes, pos = 0, reads = []\<rparr>"

definition directory :: FILE where
  "directory = \<lparr>content = [], st_size = 2 ^ 63 - 1, pos = 0, reads = []\<rparr>"

definition one_file :: "FILE \<Rightarrow> string \<Rightarrow> FILE option" where
  "one_file fptr path = (if path = ''a.mp4'' then Some fptr else None)"

text \<open>
  Variants of \<open>v0_file\<close>: a byte \<^verbatim>\<open>m\<close> directly before the tag; a duration and a timescale
  that need the high bits of their 32-bit fields; a version-1 duration above \<open>2 ^ 32\<close> whose
  low half has its high bit set; a timescale of zero.
\<close>

definition restart_file :: "byte list" where
  "restart_file = sample_file 0x6D (replicate 12 0) [0, 0, 0x03, 0xE8] [0, 0, 0x13, 0x88]"

definition high_bit_v0_file :: "byte list" where
  "high_bit_v0_file = sample_file 0 (replicate 12 0) [0, 0, 0x03, 0xE8] [0x80, 0, 0, 0]"

definition wide_timescale_file :: "byte list" where
  "wide_timescale_file = sample_file 0 (replicate 12 0) [1, 0, 0, 1] [0, 0, 0x13, 0x88]"

definition high_bit_v1_file :: "byte list" where
  "high_bit_v1_file =
     sample_file 0 (1 # replicate 19 0) [0, 0, 0x03, 0xE8] [0, 0, 0, 1, 0x80, 0, 0, 0]"

text \<open>A file of two blocks whose tag straddles the end of the first block.\<close>

definition split_tag_file :: "byte list" where
  "split_tag_file = replicate 16382 0 @ ascii ''mvhd'' @ replicate 20 0"

definition zero_duration_file :: "byte list" where
  "zero_duration_file = sample_file 0 (replicate 12 0) [0, 0, 0, 0] [0, 0, 0, 0]"

definition zero_timescale_file :: "byte list" where
  "zero_timescale_file = sample_file 0 (replicate 12 0) [0, 0, 0, 0] [0, 0, 0x13, 0x88]"

text \<open>The value of a byte sequence read as an unsigned big-endian integer.\<close>

definition be_value :: "byte list \<Rightarrow> int" where
  "be_value bs = foldl (\<lambda>acc b. acc * 256 + uint b) 0 bs"

text \<open>
  The byte range that iteration \<open>xx\<close> of the loop of \<open>move_to_header\<close> is to read on a
  file of \<open>fsize\<close> bytes, as offset and length: even iterations take the blocks from the
  front, odd iterations the blocks that end a multiple of \<open>BLOCK_SIZE\<close> before the end of
  the file. This is the order stated in closed form, not a translation of the code; the
  theorems below compare the log of the loop's reads with it.
\<close>

definition block_range :: "int \<Rightarrow> nat \<Rightarrow> nat \<times> nat" where
  "block_range fsize xx =
     (let start = (if even xx then (int xx div 2) * BLOCK_SIZE
                   else fsize - ((int xx - 1) div 2 + 1) * BLOCK_SIZE)
      in (nat start, nat (min BLOCK_SIZE (fsize - start))))"

section \<open>The stream operations\<close>

lemma fread_full:
  "pos fptr + n \<le> length (content fptr) \<Longrightarrow>
     fread fptr n = (take n (drop (pos fptr) (content fptr)),
                     fptr\<lparr>pos := pos fptr + n, reads := reads fptr @ [(pos fptr, n)]\<rparr>)"
  by (simp add: fread_def Let_def min_def)

lemma fread_length: "length (fst (fread fptr n)) = min n (length (content fptr) - pos fptr)"
  by (simp add: fread_def Let_def min.commute)

lemma ulong_id: "0 \<le> z \<Longrightarrow> z < 2 ^ 64 \<Longrightarrow> ulong z = z"
  by (simp add: ulong_def take_bit_int_eq_self)

lemma slong_ulong: "- (2 ^ 63) \<le> z \<Longrightarrow> z < 2 ^ 63 \<Longrightarrow> slong (ulong z) = z"
  by (simp add: slong_def ulong_def signed_take_bit_take_bit signed_take_bit_int_eq_self)

lemma c_div_nonneg: "0 \<le> a \<Longrightarrow> 0 < b \<Longrightarrow> c_div a b = a div b"
  by (cases "a = 0") (simp_all add: c_div_def)

lemma c_mod_nonneg: "0 \<le> a \<Longrightarrow> 0 < b \<Longrightarrow> c_mod a b = a mod b"
  by (simp add: c_mod_def c_div_nonneg minus_mult_div_eq_mod)

section \<open>The signature check\<close>

lemma union_ull_bit:
  "bit (union_ull bs) n \<Longrightarrow> n < 8 * length bs"
proof (induction bs arbitrary: n)
  case Nil
  then show ?case by simp
next
  case (Cons b bs)
  then show ?case
    by (auto simp: bit_simps dest!: Cons.IH dest: bit_imp_le_length)
qed

lemma union_ull_take_bit:
  "length bs \<le> 7 \<Longrightarrow> take_bit 56 (union_ull bs) = union_ull bs"
  by (rule bit_word_eqI) (auto simp: bit_simps dest: union_ull_bit)

text \<open>
  The first byte of the array is the low byte of the integer, the others are the integer
  shifted right by eight bits: the overlay loses nothing.
\<close>

lemma union_ull_Cons_eq_iff:
  assumes "length bs \<le> 7"
  shows "union_ull (b # bs) = w
         \<longleftrightarrow> b = word_of_int (uint w mod 256) \<and> union_ull bs = drop_bit 8 w"
proof -
  have low: "ucast (union_ull (b # bs)) = b"
    by (rule bit_word_eqI) (auto simp: bit_simps)
  have "drop_bit 8 (union_ull (b # bs)) = take_bit 56 (union_ull bs)"
    by (rule bit_word_eqI) (auto simp: bit_simps dest: bit_imp_le_length)
  then have high: "drop_bit 8 (union_ull (b # bs)) = union_ull bs"
    using assms by (simp only: union_ull_take_bit)
  have join: "ucast (ucast w :: byte) OR push_bit 8 (drop_bit 8 w) = w"
  proof (rule bit_word_eqI)
    fix n
    show "bit (ucast (ucast w :: byte) OR push_bit 8 (drop_bit 8 w)) n = bit w n"
      by (cases "n < 8") (auto simp: bit_simps dest: bit_imp_le_length)
  qed
  have uc: "(word_of_int (uint w mod 256) :: byte) = ucast w"
    by (rule bit_word_eqI)
      (auto simp: bit_simps simp flip: take_bit_eq_mod [where n = 8, simplified])
  show ?thesis
  proof
    assume h: "union_ull (b # bs) = w"
    show "b = word_of_int (uint w mod 256) \<and> union_ull bs = drop_bit 8 w"
      using low [unfolded h] high [unfolded h] unfolding uc by simp
  next
    assume "b = word_of_int (uint w mod 256) \<and> union_ull bs = drop_bit 8 w"
    then have "b = ucast w" and "union_ull bs = drop_bit 8 w"
      unfolding uc by simp_all
    with join show "union_ull (b # bs) = w"
      by simp
  qed
qed

lemma magic_isom:
  "union_ull [c0, c1, c2, c3, c4, c5, c6, c7] = 0x6D6F736970797466
   \<longleftrightarrow> [c0, c1, c2, c3, c4, c5, c6, c7] = ascii ''ftypisom''"
  by (simp add: union_ull_Cons_eq_iff ascii_def del: union_ull.simps(2))

lemma magic_mp42:
  "union_ull [c0, c1, c2, c3, c4, c5, c6, c7] = 0x3234706D70797466
   \<longleftrightarrow> [c0, c1, c2, c3, c4, c5, c6, c7] = ascii ''ftypmp42''"
  by (simp add: union_ull_Cons_eq_iff ascii_def del: union_ull.simps(2))

lemma list8:
  "length c = 8 \<Longrightarrow> \<exists>c0 c1 c2 c3 c4 c5 c6 c7. c = [c0, c1, c2, c3, c4, c5, c6, c7]"
  by (auto simp: length_Suc_conv numeral_eq_Suc)

lemma has_mp4_magic_result:
  assumes "12 \<le> length (content fptr)"
  shows "has_mp4_magic fptr =
           Inr (if union_ull (take 8 (drop 4 (content fptr))) = 0x6D6F736970797466
                   \<or> union_ull (take 8 (drop 4 (content fptr))) = 0x3234706D70797466
                then 1 else 0,
                fptr\<lparr>pos := 12, reads := reads fptr @ [(4, 8)]\<rparr>)"
proof -
  have seek: "fseek fptr 4 SEEK_SET = Some (fptr\<lparr>pos := 4\<rparr>)"
    by (simp add: fseek_def)
  have rd: "fread (fptr\<lparr>pos := 4\<rparr>) 8
              = (take 8 (drop 4 (content fptr)), fptr\<lparr>pos := 12, reads := reads fptr @ [(4, 8)]\<rparr>)"
    using assms by (simp add: fread_full)
  show ?thesis
    using assms by (simp add: has_mp4_magic_def seek rd del: union_ull.simps)
qed

text \<open>
  C4. \<open>has_mp4_magic\<close> returns 1 if and only if the 8 bytes of the file at offsets 4 to 11
  are, in file order, the ASCII signature \<^verbatim>\<open>ftypisom\<close> or the ASCII signature \<^verbatim>\<open>ftypmp42\<close>;
  for every other content of those 8 bytes it returns 0. (The stream is left at offset 12,
  after one read of 8 bytes at offset 4.)
\<close>

theorem has_mp4_magic_signature:
  assumes "12 \<le> length (content fptr)"
  shows "has_mp4_magic fptr =
           Inr (if take 8 (drop 4 (content fptr)) = ascii ''ftypisom''
                   \<or> take 8 (drop 4 (content fptr)) = ascii ''ftypmp42'' then 1 else 0,
                fptr\<lparr>pos := 12, reads := reads fptr @ [(4, 8)]\<rparr>)"
proof -
  have "length (take 8 (drop 4 (content fptr))) = 8"
    using assms by simp
  then obtain c0 c1 c2 c3 c4 c5 c6 c7
    where c: "take 8 (drop 4 (content fptr)) = [c0, c1, c2, c3, c4, c5, c6, c7]"
    using list8 by blast
  show ?thesis
    unfolding has_mp4_magic_result [OF assms] c magic_isom magic_mp42 by (rule refl)
qed

theorem has_mp4_magic_signature_witness:
  "12 \<le> length (content (regular_file v0_file))
   \<and> has_mp4_magic (regular_file v0_file)
       = Inr (1, \<lparr>content = v0_file, st_size = 64, pos = 12, reads = [(4, 8)]\<rparr>)"
  using has_mp4_magic_signature [of "regular_file v0_file"]
  by (simp add: regular_file_def v0_file_def sample_file_def ascii_def)

section \<open>The size check of main\<close>

text \<open>
  C8. For every file whose size is below 51 bytes, whatever its content, the program writes
  the "file size too small" message to standard error, prints nothing to standard output
  and returns 3: the outcome is a function of the arguments and the size alone, and none
  of the exit codes of the signature check, the scan or the decoder can occur.
\<close>

theorem main_too_small:
  assumes "2 \<le> length argv" and "fs (argv ! 1) = Some fptr"
    and "int (st_size fptr) < MIN_SIZE"
  shows "main argv fs =
           \<lparr>exit_code = 3, stdout = [],
            stderr = argv ! 0 @ '': '' @ argv ! 1 @ '': file size too small, ''
              @ show_int (int (st_size fptr)) @ '' bytes'' @ nl\<rparr>"
  using assms by (simp add: main_def fseek_def ftell_def)

theorem main_too_small_witness:
  "2 \<le> length [''mp4len'', ''a.mp4'']
   \<and> one_file (regular_file (take 50 v0_file)) ([''mp4len'', ''a.mp4''] ! 1)
       = Some (regular_file (take 50 v0_file))
   \<and> int (st_size (regular_file (take 50 v0_file))) < MIN_SIZE
   \<and> main [''mp4len'', ''a.mp4''] (one_file (regular_file (take 50 v0_file))) =
        \<lparr>exit_code = 3, stdout = [],
         stderr = ''mp4len: a.mp4: file size too small, 50 bytes'' @ nl\<rparr>"
proof -
  have len: "st_size (regular_file (take 50 v0_file)) = 50"
    by (simp add: regular_file_def v0_file_def sample_file_def ascii_def)
  have a: "2 \<le> length [''mp4len'', ''a.mp4'']"
    by simp
  have b: "one_file (regular_file (take 50 v0_file)) ([''mp4len'', ''a.mp4''] ! 1)
             = Some (regular_file (take 50 v0_file))"
    by (simp add: one_file_def)
  have c: "int (st_size (regular_file (take 50 v0_file))) < MIN_SIZE"
    unfolding len by (simp add: MIN_SIZE_def)
  have s: "show_int 50 = ''50''"
    by code_simp
  show ?thesis
    using a b c
      main_too_small [of "[''mp4len'', ''a.mp4'']" "one_file (regular_file (take 50 v0_file))"
        "regular_file (take 50 v0_file)"]
    unfolding len by (simp add: s)
qed

section \<open>The seeks of the loop\<close>

lemma n_blocks_of_nonneg:
  assumes "0 \<le> fsize"
  shows "n_blocks_of fsize = fsize div 16384 + (if fsize mod 16384 = 0 then 0 else 1)"
proof -
  have "0 \<le> fsize mod 16384"
    by simp
  then show ?thesis
    using assms by (auto simp: n_blocks_of_def BLOCK_SIZE_def c_div_nonneg c_mod_nonneg Let_def)
qed

lemma n_blocks_of_bounds:
  assumes "0 \<le> fsize"
  shows "fsize \<le> n_blocks_of fsize * 16384" and "n_blocks_of fsize * 16384 < fsize + 16384"
    and "0 \<le> n_blocks_of fsize"
proof -
  define q where "q = fsize div 16384"
  define r where "r = fsize mod 16384"
  have e: "fsize = q * 16384 + r"
    by (simp add: q_def r_def)
  have r: "0 \<le> r" "r < 16384"
    by (simp_all add: r_def)
  have q: "0 \<le> q"
    using assms by (simp add: q_def pos_imp_zdiv_nonneg_iff)
  have n: "n_blocks_of fsize = q + (if r = 0 then 0 else 1)"
    by (simp only: n_blocks_of_nonneg [OF assms] q_def r_def)
  show "fsize \<le> n_blocks_of fsize * 16384"
    unfolding n using e r by (simp split: if_splits)
  show "n_blocks_of fsize * 16384 < fsize + 16384"
    unfolding n using e r by (simp split: if_splits)
  show "0 \<le> n_blocks_of fsize"
    unfolding n using q by simp
qed

lemma seek_block_even:
  assumes len: "int (st_size fptr) = fsize" and big: "fsize < 2 ^ 63"
    and xx: "0 \<le> xx" "xx < n_blocks_of fsize" and ev: "even xx"
  shows "seek_block fptr (n_blocks_of fsize) xx = Inr (fptr\<lparr>pos := nat (xx div 2 * BLOCK_SIZE)\<rparr>)"
proof -
  have f0: "0 \<le> fsize" using len by auto
  note nb = n_blocks_of_bounds [OF f0]
  define k where "k = xx div 2"
  have k: "0 \<le> k" "2 * k = xx"
    using xx ev by (auto simp: k_def)
  have "k * 16384 < 2 ^ 63" "0 \<le> k * 16384"
    using k xx nb big by auto
  then have off: "slong (ulong (k * 16384)) = k * 16384"
    by (simp add: slong_ulong)
  have "xx mod 2 = 0" using ev by presburger
  then show ?thesis
    using \<open>0 \<le> k * 16384\<close>
    by (simp add: seek_block_def Let_def k_def [symmetric] off fseek_def BLOCK_SIZE_def)
qed

lemma seek_block_odd:
  assumes len: "int (st_size fptr) = fsize" and big: "fsize < 2 ^ 63"
    and xx: "0 \<le> xx" "xx < n_blocks_of fsize" and od: "odd xx"
  shows "seek_block fptr (n_blocks_of fsize) xx =
           Inr (fptr\<lparr>pos := nat (fsize - ((xx - 1) div 2 + 1) * BLOCK_SIZE)\<rparr>)"
    and "0 \<le> fsize - ((xx - 1) div 2 + 1) * BLOCK_SIZE"
proof -
  have f0: "0 \<le> fsize" using len by auto
  note nb = n_blocks_of_bounds [OF f0]
  define n where "n = n_blocks_of fsize"
  define k where "k = (xx - 1) div 2"
  have k: "0 \<le> k" "2 * k + 1 = xx"
    using xx od by (auto simp: k_def elim: oddE)
  have n: "0 \<le> n" "n < 2 ^ 64" "2 * k + 2 \<le> n"
    using nb big xx k by (auto simp: n_def)
  have un: "ulong n = n"
    using n by (simp add: ulong_id)
  have ii: "ulong (n - 1 - k) = n - 1 - k"
    using n k by (simp add: ulong_id)
  have lo: "(k + 1) * 16384 \<le> fsize"
    using n nb k by (auto simp: n_def)
  have off: "slong (ulong (- 16384 - k * 16384)) = - 16384 - k * 16384"
    using lo big k by (intro slong_ulong) auto
  have "xx mod 2 \<noteq> 0" using od by presburger
  then show "seek_block fptr (n_blocks_of fsize) xx =
           Inr (fptr\<lparr>pos := nat (fsize - ((xx - 1) div 2 + 1) * BLOCK_SIZE)\<rparr>)"
    using lo len
    by (simp add: seek_block_def Let_def n_def [symmetric] k_def [symmetric] un ii off fseek_def
        BLOCK_SIZE_def)
  show "0 \<le> fsize - ((xx - 1) div 2 + 1) * BLOCK_SIZE"
    using lo by (simp add: k_def BLOCK_SIZE_def)
qed

lemma div_block_bounds:
  assumes "0 \<le> (a::int)"
  shows "0 \<le> a div 16384" and "a div 16384 * 16384 \<le> a" and "a < a div 16384 * 16384 + 16384"
proof -
  have e: "a = a div 16384 * 16384 + a mod 16384"
    by simp
  have r: "0 \<le> a mod 16384" "a mod 16384 < 16384"
    by simp_all
  show "0 \<le> a div 16384"
    using assms by (simp add: pos_imp_zdiv_nonneg_iff)
  show "a div 16384 * 16384 \<le> a"
    using e r by linarith
  show "a < a div 16384 * 16384 + 16384"
    using e r by linarith
qed

section \<open>The loop of move_to_header, branch by branch\<close>

lemma seek_block_fatal:
  "seek_block f n xx = Inl e \<Longrightarrow> exit_status e = 21 \<or> exit_status e = 22"
  by (auto simp: seek_block_def Let_def split: if_splits option.splits)

text \<open>One iteration of the loop, branch by branch.\<close>

lemma block_loop_done:
  "\<not> xx < ulong n \<Longrightarrow> block_loop f fsize n xx = Inr (1, f)"
  by (subst block_loop.simps) simp

lemma block_loop_seek_fails:
  "xx < ulong n \<Longrightarrow> seek_block f n xx = Inl e \<Longrightarrow> block_loop f fsize n xx = Inl e"
  by (subst block_loop.simps) simp

lemma block_loop_short_read:
  "xx < ulong n \<Longrightarrow> seek_block f n xx = Inr f1 \<Longrightarrow> fread f1 (nat BLOCK_SIZE) = (buf, f2)
   \<Longrightarrow> int (length buf) < BLOCK_SIZE \<and> int (length buf) < fsize
   \<Longrightarrow> block_loop f fsize n xx = Inl (Fatal 23 (''Problem reading file'' @ nl))"
  by (subst block_loop.simps) simp

lemma block_loop_in_block:
  "xx < ulong n \<Longrightarrow> seek_block f n xx = Inr f1 \<Longrightarrow> fread f1 (nat BLOCK_SIZE) = (buf, f2)
   \<Longrightarrow> \<not> (int (length buf) < BLOCK_SIZE \<and> int (length buf) < fsize)
   \<Longrightarrow> search_block buf 0 0 = Inl jj
   \<Longrightarrow> block_loop f fsize n xx =
         (case fseek f2 (- int (length buf) + int jj + 1) SEEK_CUR of
            None \<Rightarrow> Inl (Fatal 24 (''Problem accessing file'' @ nl))
          | Some f3 \<Rightarrow> Inr (0, f3))"
  by (subst block_loop.simps) (auto simp: Let_def)

lemma block_loop_after_block:
  "xx < ulong n \<Longrightarrow> seek_block f n xx = Inr f1 \<Longrightarrow> fread f1 (nat BLOCK_SIZE) = (buf, f2)
   \<Longrightarrow> \<not> (int (length buf) < BLOCK_SIZE \<and> int (length buf) < fsize)
   \<Longrightarrow> search_block buf 0 0 = Inr cm
   \<Longrightarrow> (if cm > 0 then check_remaining f2 cm else (cm, f2)) = (cm', f3)
   \<Longrightarrow> block_loop f fsize n xx =
         (if cm' = 4 then Inr (0, f3) else block_loop f3 fsize n (xx + 1))"
  by (subst block_loop.simps) (auto simp: Let_def)

lemma block_loop_fatal:
  "block_loop f fsize n xx = Inl e \<Longrightarrow> exit_status e \<in> {21, 22, 23, 24}"
proof (induction "nat (ulong n - xx)" arbitrary: f xx rule: less_induct)
  case less
  show ?case
  proof (cases "xx < ulong n")
    case False
    with less.prems show ?thesis
      by (simp add: block_loop_done)
  next
    case lt: True
    show ?thesis
    proof (cases "seek_block f n xx")
      case (Inl e')
      with lt less.prems seek_block_fatal [of f n xx e'] show ?thesis
        by (auto simp: block_loop_seek_fails)
    next
      case sk: (Inr f1)
      obtain buf f2 where rd: "fread f1 (nat BLOCK_SIZE) = (buf, f2)"
        by (cases "fread f1 (nat BLOCK_SIZE)")
      show ?thesis
      proof (cases "int (length buf) < BLOCK_SIZE \<and> int (length buf) < fsize")
        case True
        from block_loop_short_read [OF lt sk rd True] less.prems show ?thesis
          by simp
      next
        case full: False
        show ?thesis
        proof (cases "search_block buf 0 0")
          case (Inl jj)
          from block_loop_in_block [OF lt sk rd full Inl] less.prems show ?thesis
            by (auto split: option.splits)
        next
          case (Inr cm)
          obtain cm' f3 where cr: "(if cm > 0 then check_remaining f2 cm else (cm, f2)) = (cm', f3)"
            by (cases "if cm > 0 then check_remaining f2 cm else (cm, f2)")
          from block_loop_after_block [OF lt sk rd full Inr cr] less.prems
          have "cm' \<noteq> 4" and nx: "block_loop f3 fsize n (xx + 1) = Inl e"
            by (auto split: if_splits)
          have "nat (ulong n - (xx + 1)) < nat (ulong n - xx)"
            using lt by simp
          from less.hyps [OF this nx] show ?thesis .
        qed
      qed
    qed
  qed
qed

section \<open>What a reported match means\<close>

lemma hdr_length: "length hdr = 4"
  by (simp add: hdr_def)

lemma take_Suc_hdr: "cm < 4 \<Longrightarrow> take (Suc cm) hdr = take cm hdr @ [hdr ! cm]"
  by (simp add: take_Suc_conv_app_nth hdr_length)

text \<open>
  The streak invariant of the scan: the last \<open>chars_matching\<close> bytes read are the first
  \<open>chars_matching\<close> bytes of the tag. \<open>pre\<close> is the part of the block already scanned.
\<close>

lemma search_block_Inl:
  assumes "search_block buf jj cm = Inl k" and "cm < 4" and "length pre = jj"
    and "cm \<le> jj" and "drop (jj - cm) pre = take cm hdr"
  shows "k < jj + length buf \<and> 3 \<le> k \<and> take 4 (drop (k - 3) (pre @ buf)) = hdr"
  using assms
proof (induction buf arbitrary: jj cm pre)
  case Nil
  then show ?case by simp
next
  case (Cons b buf)
  have step: "(pre @ [b]) @ buf = pre @ b # buf"
    by simp
  have len: "jj + 1 + length buf = jj + length (b # buf)"
    by simp
  show ?case
  proof (cases "b = hdr ! cm")
    case True
    show ?thesis
    proof (cases "cm + 1 = 4")
      case last: True
      with True Cons.prems have k: "k = jj" and cm: "cm = 3"
        by simp_all
      have "take 4 (drop (jj - 3) (pre @ b # buf)) = drop (jj - 3) pre @ [b]"
        using Cons.prems cm by (simp add: hdr_length)
      also have "\<dots> = take 3 hdr @ [hdr ! 3]"
        using Cons.prems cm True by simp
      also have "\<dots> = hdr"
        by (simp add: hdr_def)
      finally have "take 4 (drop (jj - 3) (pre @ b # buf)) = hdr" .
      then show ?thesis
        using Cons.prems(3,4) unfolding k cm by simp
    next
      case False
      with True Cons.prems have r: "search_block buf (jj + 1) (cm + 1) = Inl k"
        by simp
      have d: "drop (jj + 1 - (cm + 1)) (pre @ [b]) = take (cm + 1) hdr"
        using Cons.prems True by (simp add: take_Suc_hdr)
      have "k < jj + 1 + length buf \<and> 3 \<le> k \<and> take 4 (drop (k - 3) ((pre @ [b]) @ buf)) = hdr"
        using Cons.prems False by (intro Cons.IH [OF r _ _ _ d]) simp_all
      then show ?thesis unfolding step len .
    qed
  next
    case False
    with Cons.prems have r: "search_block buf (jj + 1) 0 = Inl k"
      by simp
    have "k < jj + 1 + length buf \<and> 3 \<le> k \<and> take 4 (drop (k - 3) ((pre @ [b]) @ buf)) = hdr"
      using Cons.prems by (intro Cons.IH [OF r]) simp_all
    then show ?thesis unfolding step len .
  qed
qed

lemma search_block_Inr:
  assumes "search_block buf jj cm = Inr cm'" and "cm < 4" and "length pre = jj"
    and "cm \<le> jj" and "drop (jj - cm) pre = take cm hdr"
  shows "cm' < 4 \<and> cm' \<le> jj + length buf
         \<and> drop (jj + length buf - cm') (pre @ buf) = take cm' hdr"
  using assms
proof (induction buf arbitrary: jj cm pre)
  case Nil
  then show ?case by simp
next
  case (Cons b buf)
  have step: "(pre @ [b]) @ buf = pre @ b # buf"
    by simp
  have len: "jj + 1 + length buf = jj + length (b # buf)"
    by simp
  show ?case
  proof (cases "b = hdr ! cm")
    case True
    show ?thesis
    proof (cases "cm + 1 = 4")
      case True
      with \<open>b = hdr ! cm\<close> Cons.prems show ?thesis by simp
    next
      case False
      with True Cons.prems have r: "search_block buf (jj + 1) (cm + 1) = Inr cm'"
        by simp
      have d: "drop (jj + 1 - (cm + 1)) (pre @ [b]) = take (cm + 1) hdr"
        using Cons.prems True by (simp add: take_Suc_hdr)
      have "cm' < 4 \<and> cm' \<le> jj + 1 + length buf
         \<and> drop (jj + 1 + length buf - cm') ((pre @ [b]) @ buf) = take cm' hdr"
        using Cons.prems False by (intro Cons.IH [OF r _ _ _ d]) simp_all
      then show ?thesis unfolding step len .
    qed
  next
    case False
    with Cons.prems have r: "search_block buf (jj + 1) 0 = Inr cm'"
      by simp
    have "cm' < 4 \<and> cm' \<le> jj + 1 + length buf
         \<and> drop (jj + 1 + length buf - cm') ((pre @ [b]) @ buf) = take cm' hdr"
      using Cons.prems by (intro Cons.IH [OF r]) simp_all
    then show ?thesis unfolding step len .
  qed
qed

lemma fgetc_matches:
  assumes "fgetc f = (c, f1)" and "c = uint b"
  shows "pos f < length (content f) \<and> content f ! pos f = b \<and> f1 = f\<lparr>pos := pos f + 1\<rparr>"
proof -
  have "c \<noteq> EOF"
    using assms(2) uint_ge_0 [of b] unfolding EOF_def by linarith
  with assms show ?thesis
    by (auto simp: fgetc_def word_uint_eq_iff split: if_splits)
qed

text \<open>The continuation moves the cursor and changes nothing else.\<close>

lemma check_remaining_moves:
  "\<exists>p. snd (check_remaining f cm) = f\<lparr>pos := p\<rparr>"
proof (induction f cm rule: check_remaining.induct)
  case (1 fptr cm)
  have same: "\<exists>p. fptr = fptr\<lparr>pos := p\<rparr>"
    by (rule exI [of _ "pos fptr"]) simp
  show ?case
  proof (cases "cm \<noteq> 0 \<and> cm \<noteq> 4")
    case False
    then show ?thesis
      using same by (subst check_remaining.simps) auto
  next
    case True
    obtain c f1 where g: "fgetc fptr = (c, f1)"
      by (cases "fgetc fptr")
    then have f1: "\<exists>q. f1 = fptr\<lparr>pos := q\<rparr>"
      using same by (auto simp: fgetc_def split: if_splits)
    show ?thesis
    proof (cases "c = uint (hdr ! cm)")
      case False
      with True g f1 show ?thesis
        by (subst check_remaining.simps) simp
    next
      case c: True
      from "1.IH" [OF True g [symmetric] c]
      obtain p where "snd (check_remaining f1 (cm + 1)) = f1\<lparr>pos := p\<rparr>"
        by blast
      moreover obtain q where "f1 = fptr\<lparr>pos := q\<rparr>"
        using f1 by blast
      ultimately have "snd (check_remaining f1 (cm + 1)) = fptr\<lparr>pos := p\<rparr>"
        by simp
      with True g c show ?thesis
        by (subst check_remaining.simps) auto
    qed
  qed
qed

lemma check_remaining_content:
  "content (snd (check_remaining f cm)) = content f"
proof -
  obtain p where "snd (check_remaining f cm) = f\<lparr>pos := p\<rparr>"
    using check_remaining_moves by blast
  then show ?thesis by simp
qed

lemma take_drop_take:
  assumes "i + m \<le> length (take N xs)"
  shows "take m (drop i (take N xs)) = take m (drop i xs)"
proof -
  from assms have "m \<le> N - i"
    by simp linarith
  then show ?thesis
    by (simp add: drop_take min_absorb1)
qed

lemma check_remaining_sound:
  assumes "check_remaining f cm = (4, f')" and "0 < cm" and "cm \<le> 4" and "cm \<le> pos f"
    and "pos f \<le> length (content f)"
    and "take cm (drop (pos f - cm) (content f)) = take cm hdr"
  shows "content f' = content f \<and> 4 \<le> pos f' \<and> pos f' \<le> length (content f)
         \<and> take 4 (drop (pos f' - 4) (content f)) = hdr"
  using assms
proof (induction "4 - cm" arbitrary: f cm)
  case 0
  then have cm: "cm = 4" by simp
  with "0.prems" have "f' = f"
    by (simp add: check_remaining.simps)
  with "0.prems" cm show ?case
    by (simp add: hdr_length)
next
  case (Suc d)
  then have cm: "cm < 4" "cm \<noteq> 0" "cm \<noteq> 4"
    by simp_all
  obtain c f1 where g: "fgetc f = (c, f1)"
    by (cases "fgetc f")
  from Suc.prems(1) cm g have c: "c = uint (hdr ! cm)"
    and r: "check_remaining f1 (cm + 1) = (4, f')"
    by (subst (asm) check_remaining.simps, simp split: if_splits)+
  from fgetc_matches [OF g c]
  have p: "pos f < length (content f)" and b: "content f ! pos f = hdr ! cm"
    and f1: "f1 = f\<lparr>pos := pos f + 1\<rparr>"
    by simp_all
  have "take (cm + 1) (drop (pos f - cm) (content f))
          = take cm (drop (pos f - cm) (content f)) @ [content f ! pos f]"
    using p Suc.prems(4) by (simp add: take_Suc_conv_app_nth)
  also have "\<dots> = take (cm + 1) hdr"
    using Suc.prems(6) b cm by (simp add: take_Suc_hdr)
  finally have t: "take (cm + 1) (drop (pos f1 - (cm + 1)) (content f1)) = take (cm + 1) hdr"
    by (simp add: f1)
  have "content f' = content f1 \<and> 4 \<le> pos f' \<and> pos f' \<le> length (content f1)
         \<and> take 4 (drop (pos f' - 4) (content f1)) = hdr"
    using Suc.hyps(2) cm Suc.prems(4) p by (intro Suc.hyps(1) [OF _ r _ _ _ _ t]) (simp_all add: f1)
  then show ?case
    by (simp add: f1)
qed

lemma seek_block_content:
  "seek_block f n xx = Inr f1 \<Longrightarrow> content f1 = content f"
  by (auto simp: seek_block_def fseek_def Let_def split: if_splits option.splits)

text \<open>
  When \<open>block_loop\<close> reports the header found, the cursor is four bytes or more into the
  file, within it, and the four bytes before the cursor are the tag.
\<close>

lemma block_loop_sound:
  "block_loop f fsize n xx = Inr (0, f') \<Longrightarrow>
     content f' = content f \<and> 4 \<le> pos f' \<and> pos f' \<le> length (content f)
     \<and> take 4 (drop (pos f' - 4) (content f)) = hdr"
proof (induction "nat (ulong n - xx)" arbitrary: f xx rule: less_induct)
  case less
  show ?case
  proof (cases "xx < ulong n")
    case False
    with less.prems show ?thesis
      by (simp add: block_loop_done)
  next
    case lt: True
    show ?thesis
    proof (cases "seek_block f n xx")
      case (Inl e)
      with lt less.prems show ?thesis
        by (simp add: block_loop_seek_fails)
    next
      case sk: (Inr f1)
      note c1 = seek_block_content [OF sk]
      obtain buf f2 where rd: "fread f1 (nat BLOCK_SIZE) = (buf, f2)"
        by (cases "fread f1 (nat BLOCK_SIZE)")
      then have buf: "buf = take (nat BLOCK_SIZE) (drop (pos f1) (content f))"
        and f2: "f2 = f1\<lparr>pos := pos f1 + length buf,
                          reads := reads f1 @ [(pos f1, length buf)]\<rparr>"
        by (auto simp: fread_def Let_def c1)
      have fit: "buf \<noteq> [] \<Longrightarrow> pos f1 + length buf \<le> length (content f)"
        unfolding buf by (cases "pos f1 \<le> length (content f)") simp_all
      have seg: "\<And>i m. i + m \<le> length buf \<Longrightarrow>
                   take m (drop i buf) = take m (drop (pos f1 + i) (content f))"
      proof -
        fix i m
        assume "i + m \<le> length buf"
        then have "take m (drop i buf) = take m (drop i (drop (pos f1) (content f)))"
          unfolding buf by (rule take_drop_take)
        then show "take m (drop i buf) = take m (drop (pos f1 + i) (content f))"
          by (simp add: add.commute)
      qed
      show ?thesis
      proof (cases "int (length buf) < BLOCK_SIZE \<and> int (length buf) < fsize")
        case True
        from block_loop_short_read [OF lt sk rd True] less.prems show ?thesis
          by simp
      next
        case full: False
        show ?thesis
        proof (cases "search_block buf 0 0")
          case (Inl jj)
          from search_block_Inl [OF Inl, of "[]"]
          have jj: "jj < length buf" "3 \<le> jj" and m: "take 4 (drop (jj - 3) buf) = hdr"
            by simp_all
          from block_loop_in_block [OF lt sk rd full Inl] less.prems
          have "fseek f2 (- int (length buf) + int jj + 1) SEEK_CUR = Some f'"
            by (simp split: option.splits)
          then have f': "f' = f2\<lparr>pos := nat (int (pos f2) - int (length buf) + int jj + 1)\<rparr>"
            by (auto simp: fseek_def Let_def split: if_splits)
          have p: "pos f' = pos f1 + jj + 1"
            unfolding f' f2 by simp
          have "take 4 (drop (jj - 3) buf) = take 4 (drop (pos f1 + (jj - 3)) (content f))"
            using jj by (intro seg) simp
          with m have "take 4 (drop (pos f' - 4) (content f)) = hdr"
            using jj by (simp add: p)
          moreover have "pos f' \<le> length (content f)"
            using fit jj unfolding p by (cases "buf = []") simp_all
          ultimately show ?thesis
            using jj by (simp add: p f' f2 c1)
        next
          case (Inr cm)
          from search_block_Inr [OF Inr, of "[]"]
          have cm: "cm < 4" "cm \<le> length buf"
            and m: "drop (length buf - cm) buf = take cm hdr"
            by simp_all
          obtain cm' f3 where cr: "(if cm > 0 then check_remaining f2 cm else (cm, f2)) = (cm', f3)"
            by (cases "if cm > 0 then check_remaining f2 cm else (cm, f2)")
          note step = block_loop_after_block [OF lt sk rd full Inr cr]
          show ?thesis
          proof (cases "cm' = 4")
            case True
            with cr cm have pos: "0 < cm" and ck: "check_remaining f2 cm = (4, f3)"
              by (auto split: if_splits)
            from True step less.prems have f3: "f3 = f'"
              by simp
            have ne: "buf \<noteq> []"
              using pos cm by auto
            have "take cm (drop (length buf - cm) buf)
                    = take cm (drop (pos f1 + (length buf - cm)) (content f))"
              using cm by (intro seg) simp
            then have t: "take cm (drop (pos f2 - cm) (content f2)) = take cm hdr"
              using m cm by (simp add: f2 c1 hdr_length)
            have "content f3 = content f2 \<and> 4 \<le> pos f3 \<and> pos f3 \<le> length (content f2)
                   \<and> take 4 (drop (pos f3 - 4) (content f2)) = hdr"
              using pos cm fit [OF ne] by (intro check_remaining_sound [OF ck _ _ _ _ t]) (simp_all add: f2 c1)
            then show ?thesis
              by (simp add: f3 f2 c1)
          next
            case False
            with step less.prems have nx: "block_loop f3 fsize n (xx + 1) = Inr (0, f')"
              by simp
            have c3: "content f3 = content f"
            proof (cases "cm > 0")
              case True
              with cr have "check_remaining f2 cm = (cm', f3)" by simp
              then show ?thesis
                using check_remaining_content [of f2 cm] by (simp add: f2 c1)
            next
              case False
              with cr show ?thesis by (auto simp: f2 c1)
            qed
            have "nat (ulong n - (xx + 1)) < nat (ulong n - xx)"
              using lt by simp
            from less.hyps [OF this nx] show ?thesis
              by (simp add: c3)
          qed
        qed
      qed
    qed
  qed
qed

lemma move_to_header_sound:
  "move_to_header f fsize = Inr (0, f') \<Longrightarrow>
     content f' = content f \<and> 4 \<le> pos f' \<and> pos f' \<le> length (content f)
     \<and> take 4 (drop (pos f' - 4) (content f)) = ascii ''mvhd''"
  unfolding move_to_header_def
  by (drule block_loop_sound) (simp add: hdr_def ascii_def)

lemma search_block_zeros:
  "search_block (replicate n 0 @ buf) jj 0 = search_block buf (jj + n) 0"
  by (induction n arbitrary: jj) (simp_all add: hdr_def)

text \<open>
  A tag that straddles the end of a front block is found: \<^verbatim>\<open>mv\<close> ends block 0,
  \<^verbatim>\<open>hd\<close> begins block 1, and the cursor is left right after the tag.
\<close>

lemma split_tag_is_found:
  "take 4 (drop 16382 split_tag_file) = ascii ''mvhd''
   \<and> move_to_header \<lparr>content = split_tag_file, st_size = 16406, pos = 12, reads = [(4, 8)]\<rparr>
         (int (length split_tag_file))
       = Inr (0, \<lparr>content = split_tag_file, st_size = 16406, pos = 16386,
                  reads = [(4, 8), (0, 16384)]\<rparr>)"
proof -
  let ?f = "\<lambda>p l. \<lparr>content = split_tag_file, st_size = 16406, pos = p, reads = l\<rparr>"
  let ?l = "[(4, 8), (0, 16384)] :: (nat \<times> nat) list"
  have len: "length split_tag_file = 16406"
    by (simp add: split_tag_file_def ascii_def)
  have n: "n_blocks_of 16406 = 2"
    by (simp add: n_blocks_of_nonneg)
  have lt: "(0::int) < ulong 2"
    by (simp add: ulong_def)
  have sk: "seek_block (?f 12 [(4, 8)]) 2 0 = Inr (?f 0 [(4, 8)])"
    by (simp add: seek_block_def ulong_def slong_def fseek_def)
  have rd: "fread (?f 0 [(4, 8)]) (nat BLOCK_SIZE)
              = (replicate 16382 0 @ [0x6D, 0x76], ?f 16384 ?l)"
    by (simp add: fread_def BLOCK_SIZE_def split_tag_file_def ascii_def)
  have full: "\<not> (int (length (replicate 16382 (0::byte) @ [0x6D, 0x76])) < BLOCK_SIZE
      \<and> int (length (replicate 16382 (0::byte) @ [0x6D, 0x76])) < 16406)"
    by (simp add: BLOCK_SIZE_def)
  have sb: "search_block (replicate 16382 0 @ [0x6D, 0x76]) 0 0 = Inr 2"
    unfolding search_block_zeros by (simp add: hdr_def)
  have h: "split_tag_file ! 16384 = 0x68" and d: "split_tag_file ! 16385 = 0x64"
    by (simp_all add: split_tag_file_def ascii_def nth_append)
  have g1: "fgetc (?f 16384 ?l) = (uint (hdr ! 2), ?f 16385 ?l)"
    by (simp add: fgetc_def len h hdr_def)
  have g2: "fgetc (?f 16385 ?l) = (uint (hdr ! 3), ?f 16386 ?l)"
    by (simp add: fgetc_def len d hdr_def)
  have c3: "check_remaining (?f 16386 ?l) 4 = (4, ?f 16386 ?l)"
    by (subst check_remaining.simps) simp
  have c2: "check_remaining (?f 16385 ?l) 3 = (4, ?f 16386 ?l)"
    by (subst check_remaining.simps) (simp add: g2 c3)
  have c1: "check_remaining (?f 16384 ?l) 2 = (4, ?f 16386 ?l)"
    by (subst check_remaining.simps) (simp add: g1 c2)
  have cr: "(if (2::nat) > 0 then check_remaining (?f 16384 ?l) 2 else (2, ?f 16384 ?l))
              = (4, ?f 16386 ?l)"
    by (simp add: c1)
  have "move_to_header (?f 12 [(4, 8)]) (int (length split_tag_file))
          = Inr (0, ?f 16386 ?l)"
    unfolding move_to_header_def len
    using block_loop_after_block [OF _ _ rd full sb cr, of 0 2 "?f 12 [(4, 8)]"] lt sk
    by (simp add: n)
  moreover have "take 4 (drop 16382 split_tag_file) = ascii ''mvhd''"
    by (simp add: split_tag_file_def ascii_def)
  ultimately show ?thesis
    by simp
qed

section \<open>The reads of the loop\<close>

text \<open>
  The ranges of \<open>block_range\<close> lie within the file, and each is a whole block unless the
  file has a single block.
\<close>

lemma block_range_bounds:
  assumes f0: "0 \<le> fsize" and xx: "xx < nat (n_blocks_of fsize)"
  obtains start where
    "start = (if even xx then int xx div 2 * 16384 else fsize - ((int xx - 1) div 2 + 1) * 16384)"
    and "block_range fsize xx = (nat start, nat (min 16384 (fsize - start)))"
    and "0 \<le> start" and "start < fsize"
    and "start + 16384 \<le> fsize \<or> (start = 0 \<and> fsize \<le> 16384)"
    and "odd xx \<Longrightarrow> start + 16384 \<le> fsize"
proof -
  note nb = n_blocks_of_bounds [OF f0]
  define n where "n = n_blocks_of fsize"
  have n: "fsize \<le> n * 16384" "n * 16384 < fsize + 16384" "int xx < n"
    using nb xx by (simp_all add: n_def)
  define start where
    "start = (if even xx then int xx div 2 * 16384 else fsize - ((int xx - 1) div 2 + 1) * 16384)"
  have br: "block_range fsize xx = (nat start, nat (min 16384 (fsize - start)))"
    by (simp add: block_range_def start_def BLOCK_SIZE_def Let_def)
  show ?thesis
  proof (cases "even xx")
    case True
    define k where "k = int xx div 2"
    have k: "0 \<le> k" "2 * k = int xx"
      using True by (auto simp: k_def)
    have s: "start = k * 16384"
      using True by (simp add: start_def k_def)
    have full: "start + 16384 \<le> fsize \<or> (start = 0 \<and> fsize \<le> 16384)"
    proof (cases "fsize \<le> 16384")
      case True
      with n have "n \<le> 1" by simp
      with n(3) k have "k = 0" by simp
      with True s show ?thesis by simp
    next
      case False
      with n(1) have "2 \<le> n" by simp
      with n(3) k have "k + 2 \<le> n" by presburger
      then have "(k + 2) * 16384 \<le> n * 16384" by simp
      with n(2) s show ?thesis by (simp add: algebra_simps)
    qed
    have "1 \<le> n"
      using n(3) by simp
    then have "16384 \<le> n * 16384"
      by simp
    with n(2) have pos: "0 < fsize"
      by simp
    have lt: "start < fsize"
      using full pos by auto
    from that [OF start_def br _ lt full] k s True show ?thesis
      by simp
  next
    case False
    define k where "k = (int xx - 1) div 2"
    have k: "0 \<le> k" "2 * k + 1 = int xx"
      using False by (auto simp: k_def elim: oddE)
    have s: "start = fsize - (k + 1) * 16384"
      using False by (simp add: start_def k_def)
    from n(3) k have "k + 2 \<le> n" by presburger
    then have "(k + 2) * 16384 \<le> n * 16384" by simp
    with n(2) have lo: "(k + 1) * 16384 < fsize" by (simp add: algebra_simps)
    have "0 \<le> start" "start < fsize" "start + 16384 \<le> fsize"
      using lo k(1) unfolding s by (simp_all add: algebra_simps)
    with that [OF start_def br] show ?thesis
      by simp
  qed
qed

lemma block_iteration:
  assumes reg: "length (content f) = st_size f" and sz: "int (st_size f) = fsize"
    and big: "fsize < 2 ^ 63" and xx: "xx < nat (n_blocks_of fsize)"
  shows "seek_block f (n_blocks_of fsize) (int xx) = Inr (f\<lparr>pos := fst (block_range fsize xx)\<rparr>)"
    and "fread (f\<lparr>pos := fst (block_range fsize xx)\<rparr>) (nat BLOCK_SIZE)
           = (take (snd (block_range fsize xx)) (drop (fst (block_range fsize xx)) (content f)),
              f\<lparr>pos := fst (block_range fsize xx) + snd (block_range fsize xx),
                reads := reads f @ [block_range fsize xx]\<rparr>)"
    and "\<not> (int (snd (block_range fsize xx)) < BLOCK_SIZE \<and> int (snd (block_range fsize xx)) < fsize)"
    and "fst (block_range fsize xx) + snd (block_range fsize xx) \<le> length (content f)"
proof -
  have f0: "0 \<le> fsize" using sz by auto
  from block_range_bounds [OF f0 xx] obtain start where
    st: "start = (if even xx then int xx div 2 * 16384 else fsize - ((int xx - 1) div 2 + 1) * 16384)"
    and br: "block_range fsize xx = (nat start, nat (min 16384 (fsize - start)))"
    and s0: "0 \<le> start" and lt: "start < fsize"
    and full: "start + 16384 \<le> fsize \<or> (start = 0 \<and> fsize \<le> 16384)"
    by blast
  have x: "0 \<le> int xx" "int xx < n_blocks_of fsize"
    using xx by simp_all
  show "seek_block f (n_blocks_of fsize) (int xx) = Inr (f\<lparr>pos := fst (block_range fsize xx)\<rparr>)"
  proof (cases "even xx")
    case True
    then have "even (int xx)" by simp
    from seek_block_even [OF sz big x this] True show ?thesis
      by (simp add: br st BLOCK_SIZE_def)
  next
    case False
    then have "odd (int xx)" by simp
    from seek_block_odd(1) [OF sz big x this] False show ?thesis
      by (simp add: br st BLOCK_SIZE_def)
  qed
  have len: "int (length (content f)) = fsize"
    using reg sz by simp
  define m where "m = min 16384 (fsize - start)"
  have m: "0 < m" "m \<le> 16384" "start + m \<le> fsize" "m = 16384 \<or> m = fsize"
    using full s0 lt unfolding m_def by linarith+
  define buf where "buf = take (nat BLOCK_SIZE) (drop (nat start) (content f))"
  have lc: "length (content f) = nat fsize"
    using len by simp
  have lb: "length buf = nat m"
    unfolding buf_def length_take length_drop lc BLOCK_SIZE_def
    using m s0 full by linarith
  have tb: "take (nat m) (drop (nat start) (content f)) = buf"
  proof (cases "m = 16384")
    case True
    then show ?thesis by (simp add: buf_def BLOCK_SIZE_def)
  next
    case False
    then have "fsize - start < 16384"
      unfolding m_def by linarith
    with full have z: "start = 0" "fsize \<le> 16384"
      by linarith+
    with False m(4) have "start = 0" "m = fsize" "fsize \<le> 16384"
      by simp_all
    then show ?thesis
      by (simp add: buf_def BLOCK_SIZE_def lc)
  qed
  have r: "fread (f\<lparr>pos := nat start\<rparr>) (nat BLOCK_SIZE)
             = (buf, f\<lparr>pos := nat start + length buf,
                      reads := reads f @ [(nat start, length buf)]\<rparr>)"
    unfolding fread_def Let_def buf_def by simp
  have br': "block_range fsize xx = (nat start, nat m)"
    by (simp only: br m_def)
  show "fread (f\<lparr>pos := fst (block_range fsize xx)\<rparr>) (nat BLOCK_SIZE)
           = (take (snd (block_range fsize xx)) (drop (fst (block_range fsize xx)) (content f)),
              f\<lparr>pos := fst (block_range fsize xx) + snd (block_range fsize xx),
                reads := reads f @ [block_range fsize xx]\<rparr>)"
    unfolding br' fst_conv snd_conv tb r lb by (rule refl)
  show "\<not> (int (snd (block_range fsize xx)) < BLOCK_SIZE \<and> int (snd (block_range fsize xx)) < fsize)"
    unfolding br' snd_conv BLOCK_SIZE_def using m by linarith
  show "fst (block_range fsize xx) + snd (block_range fsize xx) \<le> length (content f)"
    unfolding br' fst_conv snd_conv lc using m s0 by linarith
qed

lemma ulong_n_blocks:
  assumes "0 \<le> fsize" and "fsize < 2 ^ 63"
  shows "ulong (n_blocks_of fsize) = n_blocks_of fsize"
proof -
  note nb = n_blocks_of_bounds [OF assms(1)]
  have "n_blocks_of fsize * 16384 < 2 ^ 64"
    using nb(2) assms(2) by simp
  then have "n_blocks_of fsize < 2 ^ 64"
    using nb(3) by (smt (verit) mult_le_cancel_right)
  with nb(3) show ?thesis
    by (rule ulong_id)
qed

text \<open>
  The run of the loop on a regular file, from iteration \<open>xx\<close> on: it ends with a return
  value, never with an exit, and the reads it has added to the log are the ranges of the
  iterations \<open>xx, \<dots>, k - 1\<close> in this order, where \<open>k\<close> is the number of blocks when the
  header was not found.
\<close>

lemma block_loop_reads:
  assumes reg: "length (content f) = st_size f" and sz: "int (st_size f) = fsize"
    and big: "fsize < 2 ^ 63" and xx: "xx \<le> nat (n_blocks_of fsize)"
  shows "\<exists>r f' k. block_loop f fsize (n_blocks_of fsize) (int xx) = Inr (r, f')
           \<and> (r = 0 \<or> r = 1) \<and> xx \<le> k \<and> k \<le> nat (n_blocks_of fsize)
           \<and> (r = 1 \<longrightarrow> k = nat (n_blocks_of fsize)) \<and> (r = 0 \<longrightarrow> xx < k)
           \<and> reads f' = reads f @ map (block_range fsize) [xx..<k]"
  using reg sz xx
proof (induction "nat (n_blocks_of fsize) - xx" arbitrary: f xx rule: less_induct)
  case less
  let ?n = "n_blocks_of fsize"
  have f0: "0 \<le> fsize" using less.prems(2) by auto
  have un: "ulong ?n = ?n"
    using f0 big by (rule ulong_n_blocks)
  show ?case
  proof (cases "xx < nat ?n")
    case False
    with less.prems(3) have e: "xx = nat ?n" by simp
    have "\<not> int xx < ulong ?n"
      unfolding un e by simp
    then have "block_loop f fsize ?n (int xx) = Inr (1, f)"
      by (rule block_loop_done)
    then show ?thesis
      using e by (intro exI [of _ 1] exI [of _ f] exI [of _ xx]) simp
  next
    case True
    then have lt: "int xx < ulong ?n"
      unfolding un by simp
    obtain p n where br: "block_range fsize xx = (p, n)"
      by (cases "block_range fsize xx")
    note it = block_iteration [OF less.prems(1,2) big True, unfolded br fst_conv snd_conv]
    define buf where "buf = take n (drop p (content f))"
    define f2 where "f2 = f\<lparr>pos := p + n, reads := reads f @ [(p, n)]\<rparr>"
    have sk: "seek_block f ?n (int xx) = Inr (f\<lparr>pos := p\<rparr>)"
      by (rule it(1))
    have rd: "fread (f\<lparr>pos := p\<rparr>) (nat BLOCK_SIZE) = (buf, f2)"
      unfolding buf_def f2_def by (rule it(2))
    have lb: "length buf = n"
      unfolding buf_def using it(4) by simp
    have full: "\<not> (int (length buf) < BLOCK_SIZE \<and> int (length buf) < fsize)"
      unfolding lb by (rule it(3))
    have one: "[xx..<Suc xx] = [xx]"
      by simp
    show ?thesis
    proof (cases "search_block buf 0 0")
      case (Inl jj)
      have "fseek f2 (- int (length buf) + int jj + 1) SEEK_CUR = Some (f2\<lparr>pos := p + jj + 1\<rparr>)"
        unfolding lb by (simp add: fseek_def f2_def Let_def nat_add_distrib)
      with block_loop_in_block [OF lt sk rd full Inl]
      have "block_loop f fsize ?n (int xx) = Inr (0, f2\<lparr>pos := p + jj + 1\<rparr>)"
        by simp
      then show ?thesis
        using True
        by (intro exI [of _ 0] exI [of _ "f2\<lparr>pos := p + jj + 1\<rparr>"] exI [of _ "Suc xx"])
          (simp add: f2_def br one del: upt_Suc)
    next
      case (Inr cm)
      obtain cm' f3 where cr: "(if cm > 0 then check_remaining f2 cm else (cm, f2)) = (cm', f3)"
        by (cases "if cm > 0 then check_remaining f2 cm else (cm, f2)")
      have "\<exists>q. f3 = f2\<lparr>pos := q\<rparr>"
      proof (cases "cm > 0")
        case True
        with cr have "snd (check_remaining f2 cm) = f3" by simp
        with check_remaining_moves [of f2 cm] show ?thesis by simp
      next
        case False
        with cr have "f3 = f2" by simp
        then show ?thesis
          by (intro exI [of _ "pos f2"]) simp
      qed
      then obtain q where f3: "f3 = f2\<lparr>pos := q\<rparr>"
        by blast
      have r3: "reads f3 = reads f @ [block_range fsize xx]"
        and reg3: "length (content f3) = st_size f3" "int (st_size f3) = fsize"
        using less.prems(1,2) by (simp_all add: f3 f2_def br)
      note step = block_loop_after_block [OF lt sk rd full Inr cr]
      show ?thesis
      proof (cases "cm' = 4")
        case found: True
        with step have "block_loop f fsize ?n (int xx) = Inr (0, f3)"
          by simp
        then show ?thesis
          using True r3
          by (intro exI [of _ 0] exI [of _ f3] exI [of _ "Suc xx"]) (simp add: one del: upt_Suc)
      next
        case False
        with step have nx: "block_loop f fsize ?n (int xx) = block_loop f3 fsize ?n (int (Suc xx))"
          by (simp add: add.commute)
        have d: "nat ?n - Suc xx < nat ?n - xx" and s: "Suc xx \<le> nat ?n"
          using True by simp_all
        from less.hyps [OF d reg3 s] obtain r f' k where
          h: "block_loop f3 fsize ?n (int (Suc xx)) = Inr (r, f')" "r = 0 \<or> r = 1"
            "Suc xx \<le> k" "k \<le> nat ?n" "r = 1 \<longrightarrow> k = nat ?n"
            "reads f' = reads f3 @ map (block_range fsize) [Suc xx..<k]"
          by blast
        have "[xx..<k] = xx # [Suc xx..<k]"
          using h(3) by (simp add: upt_conv_Cons)
        then have "reads f' = reads f @ map (block_range fsize) [xx..<k]"
          using h(6) r3 by simp
        with h nx show ?thesis
          by (intro exI [of _ r] exI [of _ f'] exI [of _ k]) simp
      qed
    qed
  qed
qed

lemma block_range_cover:
  assumes f0: "0 \<le> fsize" and off: "off < nat fsize"
  obtains xx where "xx < nat (n_blocks_of fsize)"
    and "fst (block_range fsize xx) \<le> off"
    and "off < fst (block_range fsize xx) + snd (block_range fsize xx)"
proof -
  note nb = n_blocks_of_bounds [OF f0]
  define n where "n = n_blocks_of fsize"
  define j where "j = int off div 16384"
  have j: "0 \<le> j" "j * 16384 \<le> int off" "int off < j * 16384 + 16384"
    unfolding j_def by (rule div_block_bounds, simp)+
  have o: "int off < fsize"
    using off by simp
  show ?thesis
  proof (cases "2 * j < n")
    case True
    define xx where "xx = nat (2 * j)"
    have xx: "xx < nat (n_blocks_of fsize)" "even xx" "int xx div 2 = j"
      using True j(1) by (simp_all add: xx_def n_def even_nat_iff)
    from block_range_bounds [OF f0 xx(1)] obtain start where
      st: "start = (if even xx then int xx div 2 * 16384
                    else fsize - ((int xx - 1) div 2 + 1) * 16384)"
      and br: "block_range fsize xx = (nat start, nat (min 16384 (fsize - start)))"
      and s0: "0 \<le> start"
      by blast
    have s: "start = j * 16384"
      using st xx by simp
    have "nat start \<le> off"
      unfolding s using j by linarith
    moreover have "off < nat start + nat (min 16384 (fsize - start))"
      unfolding s using j o by linarith
    ultimately show ?thesis
      using that [OF xx(1)] by (simp add: br)
  next
    case False
    define k where "k = (fsize - 1 - int off) div 16384"
    have d: "0 \<le> fsize - 1 - int off"
      using o by linarith
    have k: "0 \<le> k" "k * 16384 \<le> fsize - 1 - int off" "fsize - 1 - int off < k * 16384 + 16384"
      unfolding k_def by (rule div_block_bounds, rule d)+
    have "k * 16384 < (n - j) * 16384"
      using k j nb by (simp add: n_def algebra_simps)
    then have "k < n - j"
      by simp
    define xx where "xx = nat (2 * k + 1)"
    have xx: "xx < nat (n_blocks_of fsize)" "odd xx" "(int xx - 1) div 2 = k"
      using False k(1) \<open>k < n - j\<close> by (simp_all add: xx_def n_def even_nat_iff)
    from block_range_bounds [OF f0 xx(1)] obtain start where
      st: "start = (if even xx then int xx div 2 * 16384
                    else fsize - ((int xx - 1) div 2 + 1) * 16384)"
      and br: "block_range fsize xx = (nat start, nat (min 16384 (fsize - start)))"
      and s0: "0 \<le> start"
      by blast
    have kk: "(k + 1) * 16384 = k * 16384 + 16384"
      by (simp add: algebra_simps)
    have s: "start = fsize - (k * 16384 + 16384)"
      using st xx kk by simp
    have "nat start \<le> off"
      using s0 k unfolding s by linarith
    moreover have "off < nat start + nat (min 16384 (fsize - start))"
      using s0 k unfolding s by linarith
    ultimately show ?thesis
      using that [OF xx(1)] by (simp add: br)
  qed
qed

lemma block_range_overlap:
  assumes f0: "0 \<le> fsize" and r: "fsize mod 16384 \<noteq> 0" and n2: "2 \<le> n_blocks_of fsize"
  obtains xe xo pe po where "xe < nat (n_blocks_of fsize)" and "xo < nat (n_blocks_of fsize)"
    and "block_range fsize xe = (pe, 16384)" and "block_range fsize xo = (po, 16384)"
    and "int pe mod 16384 = 0" and "(fsize - int po) mod 16384 = 0"
    and "pe < po" and "po < pe + 16384"
proof -
  note nb = n_blocks_of_bounds [OF f0]
  define n where "n = n_blocks_of fsize"
  have strict: "fsize < n * 16384"
    using nb(1) r unfolding n_def [symmetric]
    by (metis dvd_triv_right dvd_imp_mod_0 order_le_less)
  have low: "n * 16384 < fsize + 16384"
    using nb(2) by (simp add: n_def)
  define m where "m = n div 2"
  define c where "c = (n - 1) div 2"
  have mc: "1 \<le> m" "0 \<le> c" "c + 1 + m = n" "c \<le> m" "m \<le> c + 1"
    using n2 unfolding m_def c_def n_def by presburger+
  define xe where "xe = nat (2 * c)"
  define xo where "xo = nat (2 * m - 1)"
  have xe: "xe < nat (n_blocks_of fsize)" "even xe" "int xe div 2 = c"
    using mc by (simp_all add: xe_def n_def [symmetric] even_nat_iff)
  have xo: "xo < nat (n_blocks_of fsize)" "odd xo" "(int xo - 1) div 2 + 1 = m"
    using mc by (simp_all add: xo_def n_def [symmetric] even_nat_iff)
  from block_range_bounds [OF f0 xe(1)] obtain se where
    se: "se = (if even xe then int xe div 2 * 16384 else fsize - ((int xe - 1) div 2 + 1) * 16384)"
    and bre: "block_range fsize xe = (nat se, nat (min 16384 (fsize - se)))"
    by blast
  from block_range_bounds [OF f0 xo(1)] obtain so where
    so: "so = (if even xo then int xo div 2 * 16384 else fsize - ((int xo - 1) div 2 + 1) * 16384)"
    and bro: "block_range fsize xo = (nat so, nat (min 16384 (fsize - so)))"
    by blast
  have se': "se = c * 16384"
    using se xe by simp
  have so': "so = fsize - m * 16384"
    using so xo by simp
  have cm: "c * 16384 + 16384 + m * 16384 = n * 16384"
    using mc(3) by (simp add: algebra_simps flip: mc(3))
  have "16384 \<le> m * 16384"
    using mc(1) by simp
  then have e1: "min 16384 (fsize - se) = 16384" and e2: "min 16384 (fsize - so) = 16384"
    unfolding se' so' using cm low by linarith+
  have "int (nat se) mod 16384 = 0" "(fsize - int (nat so)) mod 16384 = 0"
    using mc cm low unfolding se' so' by simp_all
  moreover have "nat se < nat so" "nat so < nat se + 16384"
    using mc cm low strict unfolding se' so' by linarith+
  ultimately show ?thesis
    using that [OF xe(1) xo(1), of "nat se" "nat so"] bre bro e1 e2 by simp
qed

lemma move_to_header_reads:
  assumes "length (content fptr) = st_size fptr" and "int (st_size fptr) = fsize"
    and "fsize < 2 ^ 63"
  shows "\<exists>r f' k. move_to_header fptr fsize = Inr (r, f') \<and> (r = 0 \<or> r = 1)
           \<and> k \<le> nat (n_blocks_of fsize)
           \<and> (r = 1 \<longrightarrow> k = nat (n_blocks_of fsize)) \<and> (r = 0 \<longrightarrow> 0 < k)
           \<and> reads f' = reads fptr @ map (block_range fsize) [0..<k]"
  using block_loop_reads [OF assms, of 0] unfolding move_to_header_def by auto

lemma zeros_not_found:
  assumes "move_to_header f fsize = Inr (0, f')" and "content f = replicate n 0"
  shows False
proof -
  note s = move_to_header_sound [OF assms(1)]
  have t: "take 4 (drop (pos f' - 4) (content f)) = ascii ''mvhd''"
    using s by (elim conjE)
  have p: "4 \<le> pos f'" "pos f' \<le> n"
    using s by (simp_all add: assms(2))
  have m: "min 4 (n - (pos f' - 4)) = 4"
    using p by arith
  have "take 4 (drop (pos f' - 4) (content f)) = replicate 4 0"
    by (simp only: assms(2) drop_replicate take_replicate m)
  with t have "replicate 4 (0::byte) = ascii ''mvhd''"
    by simp
  moreover have "replicate 4 (0::byte) = [0, 0, 0, 0]"
    by (simp add: numeral_eq_Suc)
  moreover have "ascii ''mvhd'' = [0x6D, 0x76, 0x68, 0x64]"
    by (simp add: ascii_def)
  ultimately show False
    by simp
qed

text \<open>
  C6, as the code has it. On a regular file of \<open>fsize\<close> bytes (\<open>N = n_blocks_of fsize\<close> blocks)
  \<open>move_to_header\<close> returns 0 or 1 without an exit, and the block reads of its loop are, in
  this order, those of the iterations \<open>0, \<dots>, k - 1\<close>, where \<open>k = N\<close> when the header is
  not found: even iteration \<open>xx\<close> reads from byte offset \<open>(xx div 2) * BLOCK_SIZE\<close>, odd
  iteration \<open>xx\<close> reads the \<open>BLOCK_SIZE\<close> bytes from
  \<open>fsize - ((xx - 1) div 2 + 1) * BLOCK_SIZE\<close> on, a block aligned with the end of the file.
  That offset is the start of the partition's block \<open>N - 1 - (xx - 1) div 2\<close> moved towards
  the front by \<open>N * BLOCK_SIZE - fsize\<close>, so it is that block only when \<open>fsize\<close> is a multiple
  of \<open>BLOCK_SIZE\<close>.
\<close>

theorem block_visit_order:
  assumes "length (content fptr) = st_size fptr" and "int (st_size fptr) = fsize"
    and "fsize < 2 ^ 63"
  shows "(\<exists>r f' k. move_to_header fptr fsize = Inr (r, f') \<and> (r = 0 \<or> r = 1)
            \<and> k \<le> nat (n_blocks_of fsize)
            \<and> (r = 1 \<longrightarrow> k = nat (n_blocks_of fsize)) \<and> (r = 0 \<longrightarrow> 0 < k)
            \<and> reads f' = reads fptr @ map (block_range fsize) [0..<k])
         \<and> (\<forall>xx < nat (n_blocks_of fsize). even xx \<longrightarrow>
               fst (block_range fsize xx) = nat ((int xx div 2) * BLOCK_SIZE))
         \<and> (\<forall>xx < nat (n_blocks_of fsize). odd xx \<longrightarrow>
               block_range fsize xx =
                 (nat ((n_blocks_of fsize - 1 - (int xx - 1) div 2) * BLOCK_SIZE
                       - (n_blocks_of fsize * BLOCK_SIZE - fsize)), nat BLOCK_SIZE)
               \<and> 0 \<le> (n_blocks_of fsize - 1 - (int xx - 1) div 2) * BLOCK_SIZE
                       - (n_blocks_of fsize * BLOCK_SIZE - fsize))"
proof (intro conjI allI impI)
  show "\<exists>r f' k. move_to_header fptr fsize = Inr (r, f') \<and> (r = 0 \<or> r = 1)
            \<and> k \<le> nat (n_blocks_of fsize)
            \<and> (r = 1 \<longrightarrow> k = nat (n_blocks_of fsize)) \<and> (r = 0 \<longrightarrow> 0 < k)
            \<and> reads f' = reads fptr @ map (block_range fsize) [0..<k]"
    using assms by (rule move_to_header_reads)
next
  fix xx :: nat
  assume "xx < nat (n_blocks_of fsize)" and "even xx"
  then show "fst (block_range fsize xx) = nat ((int xx div 2) * BLOCK_SIZE)"
    by (simp add: block_range_def Let_def)
next
  fix xx :: nat
  assume xx: "xx < nat (n_blocks_of fsize)" and od: "odd xx"
  have f0: "0 \<le> fsize" using assms(2) by auto
  from block_range_bounds [OF f0 xx] obtain start where
    st: "start = (if even xx then int xx div 2 * 16384
                  else fsize - ((int xx - 1) div 2 + 1) * 16384)"
    and br: "block_range fsize xx = (nat start, nat (min 16384 (fsize - start)))"
    and s0: "0 \<le> start" and full: "odd xx \<Longrightarrow> start + 16384 \<le> fsize"
    by blast
  define d where "d = (int xx - 1) div 2"
  have st': "start = fsize - (d + 1) * 16384"
    using od by (simp add: st d_def)
  have e: "(n_blocks_of fsize - 1 - (int xx - 1) div 2) * BLOCK_SIZE
             - (n_blocks_of fsize * BLOCK_SIZE - fsize) = start"
    unfolding d_def [symmetric] st' BLOCK_SIZE_def by (simp add: algebra_simps)
  have m: "min 16384 (fsize - start) = 16384"
    using full [OF od] by simp
  show "block_range fsize xx =
          (nat ((n_blocks_of fsize - 1 - (int xx - 1) div 2) * BLOCK_SIZE
                - (n_blocks_of fsize * BLOCK_SIZE - fsize)), nat BLOCK_SIZE)"
    unfolding e br m by (simp add: BLOCK_SIZE_def)
  show "0 \<le> (n_blocks_of fsize - 1 - (int xx - 1) div 2) * BLOCK_SIZE
             - (n_blocks_of fsize * BLOCK_SIZE - fsize)"
    unfolding e by (rule s0)
qed

theorem block_visit_order_witness:
  "length (content (regular_file two_block_file)) = st_size (regular_file two_block_file)
   \<and> int (st_size (regular_file two_block_file)) = 16385 \<and> (16385::int) < 2 ^ 63
   \<and> (\<exists>f'. move_to_header (regular_file two_block_file) 16385 = Inr (1, f')
          \<and> reads f' = [(0, 16384), (1, 16384)])
   \<and> (0::nat) < nat (n_blocks_of 16385) \<and> even (0::nat)
   \<and> fst (block_range 16385 0) = 0
   \<and> (1::nat) < nat (n_blocks_of 16385) \<and> odd (1::nat)
   \<and> block_range 16385 1 = (1, 16384)"
proof -
  let ?f = "regular_file two_block_file"
  have n: "n_blocks_of 16385 = 2"
    by (simp add: n_blocks_of_nonneg)
  have a: "length (content ?f) = st_size ?f" "int (st_size ?f) = 16385" "(16385::int) < 2 ^ 63"
    by (simp_all add: regular_file_def two_block_file_def)
  have b: "block_range 16385 0 = (0, 16384)" "block_range 16385 1 = (1, 16384)"
    by (simp_all add: block_range_def BLOCK_SIZE_def Let_def)
  from block_visit_order [OF a] obtain r f' k where
    m: "move_to_header ?f 16385 = Inr (r, f')" and r: "r = 0 \<or> r = 1"
    and k: "r = 1 \<longrightarrow> k = nat (n_blocks_of 16385)"
    and l: "reads f' = reads ?f @ map (block_range 16385) [0..<k]"
    by blast
  have "r \<noteq> 0"
  proof
    assume "r = 0"
    with m have "move_to_header ?f 16385 = Inr (0, f')" by simp
    then show False
      by (rule zeros_not_found [where n = 16385]) (simp add: regular_file_def two_block_file_def)
  qed
  with r have r1: "r = 1" by simp
  with k n have "k = 2" by simp
  then have u: "[0..<k] = [0, 1]"
    by (simp add: numeral_2_eq_2)
  have b': "block_range 16385 (Suc 0) = (1, 16384)"
    using b(2) by simp
  have "reads f' = [(0, 16384), (1, 16384)]"
    unfolding l u by (simp add: b(1) b' regular_file_def)
  with m r1 have "\<exists>f'. move_to_header ?f 16385 = Inr (1, f') \<and> reads f' = [(0, 16384), (1, 16384)]"
    by blast
  moreover have "(0::nat) < nat (n_blocks_of 16385)" "(1::nat) < nat (n_blocks_of 16385)"
    "fst (block_range 16385 0) = 0"
    by (simp_all add: n b(1))
  ultimately show ?thesis
    using a b(2) by (intro conjI) simp_all
qed

text \<open>
  C6 as stated fails on a file of 16385 bytes (two blocks): iteration 1 reads from offset 1,
  not from offset 16384 where block 1 of the partition starts.
\<close>

theorem odd_block_is_end_aligned:
  "n_blocks_of 16385 = 2
   \<and> seek_block (regular_file two_block_file) (n_blocks_of 16385) 1
       = Inr ((regular_file two_block_file)\<lparr>pos := 1\<rparr>)
   \<and> (n_blocks_of 16385 - 1 - (1 - 1) div 2) * BLOCK_SIZE = 16384"
proof -
  have n: "n_blocks_of 16385 = 2"
    by (simp add: n_blocks_of_nonneg)
  have "seek_block (regular_file two_block_file) 2 1
       = Inr ((regular_file two_block_file)\<lparr>pos := 1\<rparr>)"
    by (simp add: seek_block_def ulong_def slong_def fseek_def BLOCK_SIZE_def
        regular_file_def two_block_file_def)
  then show ?thesis
    by (simp add: n BLOCK_SIZE_def)
qed

text \<open>
  C9. On a regular file of \<open>fsize \<ge> 51\<close> bytes the scan is not cut short by an exit:
  \<open>move_to_header\<close> returns 0 or 1. When no match ends it early (it returns 1), the ranges
  that its loop has read cover every byte offset below \<open>fsize\<close>; and when \<open>fsize\<close> is not a
  multiple of \<open>BLOCK_SIZE\<close> and there is an end-aligned block at all (two blocks or more),
  it has read a front-aligned block and an end-aligned block that overlap.
\<close>

theorem blocks_cover_file:
  assumes "MIN_SIZE \<le> fsize" and "fsize < 2 ^ 63"
    and "length (content fptr) = st_size fptr" and "int (st_size fptr) = fsize"
  shows "(\<exists>r f'. move_to_header fptr fsize = Inr (r, f') \<and> (r = 0 \<or> r = 1))
         \<and> (\<forall>f'. move_to_header fptr fsize = Inr (1, f') \<longrightarrow>
              (\<forall>off < nat fsize.
                 \<exists>p n. (p, n) \<in> set (drop (length (reads fptr)) (reads f'))
                       \<and> p \<le> off \<and> off < p + n)
              \<and> (fsize mod BLOCK_SIZE \<noteq> 0 \<and> 2 \<le> n_blocks_of fsize \<longrightarrow>
                   (\<exists>pe po. (pe, nat BLOCK_SIZE) \<in> set (drop (length (reads fptr)) (reads f'))
                      \<and> (po, nat BLOCK_SIZE) \<in> set (drop (length (reads fptr)) (reads f'))
                      \<and> int pe mod BLOCK_SIZE = 0 \<and> (fsize - int po) mod BLOCK_SIZE = 0
                      \<and> pe < po \<and> po < pe + nat BLOCK_SIZE)))"
proof -
  have f0: "0 \<le> fsize" using assms(4) by auto
  from move_to_header_reads [OF assms(3,4,2)] obtain r f1 k where
    m: "move_to_header fptr fsize = Inr (r, f1)" and r: "r = 0 \<or> r = 1"
    and k: "r = 1 \<longrightarrow> k = nat (n_blocks_of fsize)"
    and l: "reads f1 = reads fptr @ map (block_range fsize) [0..<k]"
    by blast
  have first: "\<exists>r f'. move_to_header fptr fsize = Inr (r, f') \<and> (r = 0 \<or> r = 1)"
    using m r by blast
  have second: "(\<forall>off < nat fsize.
                 \<exists>p n. (p, n) \<in> set (drop (length (reads fptr)) (reads f'))
                       \<and> p \<le> off \<and> off < p + n)
              \<and> (fsize mod BLOCK_SIZE \<noteq> 0 \<and> 2 \<le> n_blocks_of fsize \<longrightarrow>
                   (\<exists>pe po. (pe, nat BLOCK_SIZE) \<in> set (drop (length (reads fptr)) (reads f'))
                      \<and> (po, nat BLOCK_SIZE) \<in> set (drop (length (reads fptr)) (reads f'))
                      \<and> int pe mod BLOCK_SIZE = 0 \<and> (fsize - int po) mod BLOCK_SIZE = 0
                      \<and> pe < po \<and> po < pe + nat BLOCK_SIZE))"
    if nf: "move_to_header fptr fsize = Inr (1, f')" for f'
  proof -
    from nf m have "r = 1" "f1 = f'" by simp_all
    with k l have "reads f' = reads fptr @ map (block_range fsize) [0..<nat (n_blocks_of fsize)]"
      by simp
    then have new: "set (drop (length (reads fptr)) (reads f'))
                      = block_range fsize ` {0..<nat (n_blocks_of fsize)}"
      by simp
    show ?thesis
    proof (intro conjI allI impI)
      fix off
      assume "off < nat fsize"
      from block_range_cover [OF f0 this] obtain xx where
        x: "xx < nat (n_blocks_of fsize)" "fst (block_range fsize xx) \<le> off"
          "off < fst (block_range fsize xx) + snd (block_range fsize xx)"
        by blast
      have "(fst (block_range fsize xx), snd (block_range fsize xx))
              \<in> set (drop (length (reads fptr)) (reads f'))"
        unfolding new using x(1) by simp
      with x(2,3) show "\<exists>p n. (p, n) \<in> set (drop (length (reads fptr)) (reads f'))
                       \<and> p \<le> off \<and> off < p + n"
        by blast
    next
      assume "fsize mod BLOCK_SIZE \<noteq> 0 \<and> 2 \<le> n_blocks_of fsize"
      then have "fsize mod 16384 \<noteq> 0" "2 \<le> n_blocks_of fsize"
        by (simp_all add: BLOCK_SIZE_def)
      from block_range_overlap [OF f0 this] obtain xe xo pe po where
        o: "xe < nat (n_blocks_of fsize)" "xo < nat (n_blocks_of fsize)"
          "block_range fsize xe = (pe, 16384)" "block_range fsize xo = (po, 16384)"
          "int pe mod 16384 = 0" "(fsize - int po) mod 16384 = 0" "pe < po" "po < pe + 16384"
        by blast
      have "(pe, nat BLOCK_SIZE) \<in> set (drop (length (reads fptr)) (reads f'))"
        "(po, nat BLOCK_SIZE) \<in> set (drop (length (reads fptr)) (reads f'))"
        unfolding new BLOCK_SIZE_def using o(1,2) o(3,4) [symmetric] by simp_all
      with o(5-8) show "\<exists>pe po. (pe, nat BLOCK_SIZE) \<in> set (drop (length (reads fptr)) (reads f'))
                      \<and> (po, nat BLOCK_SIZE) \<in> set (drop (length (reads fptr)) (reads f'))
                      \<and> int pe mod BLOCK_SIZE = 0 \<and> (fsize - int po) mod BLOCK_SIZE = 0
                      \<and> pe < po \<and> po < pe + nat BLOCK_SIZE"
        unfolding BLOCK_SIZE_def by (intro exI [of _ pe] exI [of _ po]) simp
    qed
  qed
  show ?thesis
    apply (rule conjI)
     apply (rule first)
    apply (rule allI)
    apply (rule impI)
    apply (erule second)
    done
qed

theorem blocks_cover_file_witness:
  "MIN_SIZE \<le> 40000 \<and> (40000::int) < 2 ^ 63
   \<and> length (content (regular_file three_block_file)) = st_size (regular_file three_block_file)
   \<and> int (st_size (regular_file three_block_file)) = 40000
   \<and> (\<exists>f'. move_to_header (regular_file three_block_file) 40000 = Inr (1, f')
         \<and> 39999 < nat 40000
         \<and> (\<exists>p n. (p, n) \<in> set (drop (length (reads (regular_file three_block_file))) (reads f'))
                \<and> p \<le> 39999 \<and> 39999 < p + n)
         \<and> 40000 mod BLOCK_SIZE \<noteq> 0 \<and> 2 \<le> n_blocks_of 40000
         \<and> (\<exists>pe po. (pe, nat BLOCK_SIZE)
                        \<in> set (drop (length (reads (regular_file three_block_file))) (reads f'))
                \<and> (po, nat BLOCK_SIZE)
                        \<in> set (drop (length (reads (regular_file three_block_file))) (reads f'))
                \<and> int pe mod BLOCK_SIZE = 0 \<and> (40000 - int po) mod BLOCK_SIZE = 0
                \<and> pe < po \<and> po < pe + nat BLOCK_SIZE))"
proof -
  let ?f = "regular_file three_block_file"
  have n: "n_blocks_of 40000 = 3"
    by (simp add: n_blocks_of_nonneg)
  have a: "MIN_SIZE \<le> 40000" "(40000::int) < 2 ^ 63" "length (content ?f) = st_size ?f"
    "int (st_size ?f) = 40000"
    by (simp_all add: MIN_SIZE_def regular_file_def three_block_file_def)
  note w = blocks_cover_file [OF a]
  from w [THEN conjunct1] obtain r f' where m: "move_to_header ?f 40000 = Inr (r, f')" and r: "r = 0 \<or> r = 1"
    by blast
  have "r \<noteq> 0"
  proof
    assume "r = 0"
    with m have "move_to_header ?f 40000 = Inr (0, f')" by simp
    then show False
      by (rule zeros_not_found [where n = 40000]) (simp add: regular_file_def three_block_file_def)
  qed
  with r m have nf: "move_to_header ?f 40000 = Inr (1, f')" by simp
  note c = w [THEN conjunct2, rule_format, OF nf]
  have o: "39999 < nat 40000" by simp
  have h: "40000 mod BLOCK_SIZE \<noteq> 0 \<and> 2 \<le> n_blocks_of 40000"
    by (simp add: n BLOCK_SIZE_def)
  note c1 = c [THEN conjunct1, rule_format, OF o]
  note c2 = c [THEN conjunct2, rule_format, OF h]
  have "\<exists>f'. move_to_header ?f 40000 = Inr (1, f')
         \<and> 39999 < nat 40000
         \<and> (\<exists>p n. (p, n) \<in> set (drop (length (reads ?f)) (reads f'))
                \<and> p \<le> 39999 \<and> 39999 < p + n)
         \<and> 40000 mod BLOCK_SIZE \<noteq> 0 \<and> 2 \<le> n_blocks_of 40000
         \<and> (\<exists>pe po. (pe, nat BLOCK_SIZE) \<in> set (drop (length (reads ?f)) (reads f'))
                \<and> (po, nat BLOCK_SIZE) \<in> set (drop (length (reads ?f)) (reads f'))
                \<and> int pe mod BLOCK_SIZE = 0 \<and> (40000 - int po) mod BLOCK_SIZE = 0
                \<and> pe < po \<and> po < pe + nat BLOCK_SIZE)"
    by (rule exI [where x = "f'"]) (intro conjI nf o c1 c2 conjunct1 [OF h] conjunct2 [OF h])
  with a show ?thesis
    by (intro conjI)
qed

section \<open>The version byte\<close>



section \<open>Runs on the sample files\<close>

lemma sample_file_length:
  "length (sample_file b ve ts dur) = 44 + length ve + length ts + length dur"
  by (simp add: sample_file_def ascii_def)

lemma sample_file_magic:
  "has_mp4_magic \<lparr>content = sample_file b ve ts dur, st_size = s, pos = p, reads = l\<rparr>
     = Inr (1, \<lparr>content = sample_file b ve ts dur, st_size = s, pos = 12,
                reads = l @ [(4, 8)]\<rparr>)"
proof -
  have "12 \<le> length (content \<lparr>content = sample_file b ve ts dur, st_size = s, pos = p,
                               reads = l\<rparr>)"
    by (simp add: sample_file_length)
  from has_mp4_magic_result [OF this] show ?thesis
    by (simp add: sample_file_def ascii_def)
qed

lemma sample_file_bytes:
  "sample_file b ve ts dur =
     [0, 0, 0, 0x20, 0x66, 0x74, 0x79, 0x70, 0x69, 0x73, 0x6F, 0x6D,
      0, 0, 0, 0, 0, 0, 0, 0, 0, 0, 0, 0, 0, 0, 0, 0, 0, 0, 0, 0, 0, 0, 0, 0, 0, 0, 0,
      b, 0x6D, 0x76, 0x68, 0x64] @ ve @ ts @ dur"
  by (simp add: sample_file_def ascii_def numeral_eq_Suc)

lemma sample_file_search:
  "search_block (sample_file 0 ve ts dur) 0 0 = Inl 43"
  unfolding sample_file_bytes by (simp add: hdr_def)

lemma n_blocks_of_one_block:
  assumes "0 < n" and "n \<le> 16384"
  shows "n_blocks_of n = 1"
proof (cases "n = 16384")
  case True
  then show ?thesis by (simp add: n_blocks_of_nonneg)
next
  case False
  with assms have "n div 16384 = 0" "n mod 16384 = n"
    by simp_all
  with assms show ?thesis by (simp add: n_blocks_of_nonneg)
qed

lemma block_loop_single:
  assumes len: "0 < length bytes" "length bytes \<le> 16384"
  shows "move_to_header \<lparr>content = bytes, st_size = s, pos = p, reads = l\<rparr>
           (int (length bytes))
         = (case search_block bytes 0 0 of
              Inl jj \<Rightarrow> Inr (0, \<lparr>content = bytes, st_size = s, pos = jj + 1,
                                 reads = l @ [(0, length bytes)]\<rparr>)
            | Inr cm \<Rightarrow>
                (case (if cm > 0
                       then check_remaining \<lparr>content = bytes, st_size = s, pos = length bytes,
                                             reads = l @ [(0, length bytes)]\<rparr> cm
                       else (cm, \<lparr>content = bytes, st_size = s, pos = length bytes,
                                  reads = l @ [(0, length bytes)]\<rparr>)) of
                   (cm', f3) \<Rightarrow> if cm' = 4 then Inr (0, f3) else Inr (1, f3)))"
proof -
  have n: "n_blocks_of (int (length bytes)) = 1"
    using len by (intro n_blocks_of_one_block) simp_all
  have s: "seek_block \<lparr>content = bytes, st_size = s, pos = p, reads = l\<rparr> 1 0
             = Inr \<lparr>content = bytes, st_size = s, pos = 0, reads = l\<rparr>"
    by (simp add: seek_block_def ulong_def slong_def fseek_def)
  have r: "fread \<lparr>content = bytes, st_size = s, pos = 0, reads = l\<rparr> (nat BLOCK_SIZE)
             = (bytes, \<lparr>content = bytes, st_size = s, pos = length bytes,
                        reads = l @ [(0, length bytes)]\<rparr>)"
    using len by (simp add: fread_def BLOCK_SIZE_def)
  have stop: "\<And>f. block_loop f (int (length bytes)) 1 1 = Inr (1, f)"
    by (subst block_loop.simps) (simp add: ulong_def)
  show ?thesis
    unfolding move_to_header_def n
    by (subst block_loop.simps)
      (auto simp: s r stop ulong_def fseek_def split: sum.splits prod.splits)
qed

lemma sample_file_header:
  assumes "length ve + length ts + length dur \<le> 16340"
  shows "move_to_header \<lparr>content = sample_file 0 ve ts dur, st_size = s, pos = p, reads = l\<rparr>
           (int (length (sample_file 0 ve ts dur)))
         = Inr (0, \<lparr>content = sample_file 0 ve ts dur, st_size = s, pos = 44,
                    reads = l @ [(0, length (sample_file 0 ve ts dur))]\<rparr>)"
proof -
  have "0 < length (sample_file 0 ve ts dur)" "length (sample_file 0 ve ts dur) \<le> 16384"
    using assms by (simp_all add: sample_file_length)
  from block_loop_single [OF this] show ?thesis
    by (simp add: sample_file_search)
qed

lemma sample_file_skip_v0:
  assumes "length ve = 12" and "ve ! 0 \<noteq> 1"
  shows "skip_to_timescale \<lparr>content = sample_file b ve ts dur, st_size = s, pos = 44,
                             reads = l\<rparr>
           = Inr (uint (ve ! 0), \<lparr>content = sample_file b ve ts dur, st_size = s, pos = 56,
                                   reads = l\<rparr>)"
proof -
  have u: "uint (ve ! 0) \<noteq> 1"
    using assms(2) by (simp add: word_uint_eq_iff)
  have v: "sample_file b ve ts dur ! 44 = ve ! 0"
    using assms by (simp add: sample_file_bytes nth_append)
  show ?thesis
    using assms u by (simp add: skip_to_timescale_def fgetc_def sample_file_length v fseek_def)
qed

lemma sample_file_fields_v0:
  assumes "length ve = 12" and "version \<noteq> 1" and "length ts = 4" and "length dur = 4"
  shows "read_fields version \<lparr>content = sample_file b ve ts dur, st_size = s, pos = 56,
                               reads = l\<rparr>
           = Inr (unit_per_sec_of ts, len_unit_of ([0, 0, 0, 0] @ dur),
                  \<lparr>content = sample_file b ve ts dur, st_size = s, pos = 64,
                   reads = l @ [(56, 4), (60, 4)]\<rparr>)"
proof -
  have t: "take 4 (drop 56 (sample_file b ve ts dur)) = ts"
    "take 4 (drop 60 (sample_file b ve ts dur)) = dur"
    using assms by (simp_all add: sample_file_bytes)
  show ?thesis
    using assms by (simp add: read_fields_def fread_def t Let_def sample_file_length)
qed

lemma sample_file_decode_v0:
  assumes "length ve = 12" and "ve ! 0 \<noteq> 1" and "length ts = 4" and "length dur = 4"
  shows "get_mp4_len \<lparr>content = sample_file 0 ve ts dur, st_size = s, pos = p, reads = l\<rparr>
           (int (length (sample_file 0 ve ts dur)))
         = Inr (len_sec_of (len_unit_of ([0, 0, 0, 0] @ dur)) (unit_per_sec_of ts),
                \<lparr>content = sample_file 0 ve ts dur, st_size = s, pos = 64,
                 reads = l @ [(0, 64), (56, 4), (60, 4)]\<rparr>)"
proof -
  let ?c = "sample_file 0 ve ts dur"
  have n: "length ?c = 64"
    using assms by (simp add: sample_file_length)
  have h: "move_to_header \<lparr>content = ?c, st_size = s, pos = p, reads = l\<rparr> (int (length ?c))
             = Inr (0, \<lparr>content = ?c, st_size = s, pos = 44, reads = l @ [(0, 64)]\<rparr>)"
    using assms sample_file_header [of ve ts dur s p l] by (simp add: n)
  have u: "uint (ve ! 0) \<noteq> 1"
    using assms(2) by (simp add: word_uint_eq_iff)
  show ?thesis
    by (simp add: get_mp4_len_def h sample_file_skip_v0 [OF assms(1,2)]
        sample_file_fields_v0 [OF assms(1) u assms(3,4)])
qed

lemma sample_file_main:
  assumes "get_mp4_len \<lparr>content = sample_file b ve ts dur,
                         st_size = length (sample_file b ve ts dur), pos = 12,
                         reads = [(4, 8)]\<rparr>
             (int (length (sample_file b ve ts dur))) = r"
    and "7 \<le> length ve + length ts + length dur"
  shows "main [''mp4len'', ''a.mp4''] (one_file (regular_file (sample_file b ve ts dur)))
         = (case r of
              Inl e \<Rightarrow> \<lparr>exit_code = exit_status e, stdout = [], stderr = message e\<rparr>
            | Inr (vlen, f2) \<Rightarrow> \<lparr>exit_code = 0, stdout = [vlen], stderr = []\<rparr>)"
  using assms
  by (simp add: main_def one_file_def regular_file_def fseek_def ftell_def MIN_SIZE_def
      sample_file_length sample_file_magic Let_def split: sum.splits prod.splits)

lemma sample_file_decode_v1:
  assumes "length ve = 20" and "ve ! 0 = 1" and "length ts = 4" and "length dur = 8"
  shows "get_mp4_len \<lparr>content = sample_file 0 ve ts dur, st_size = s, pos = p, reads = l\<rparr>
           (int (length (sample_file 0 ve ts dur)))
         = Inr (len_sec_of (len_unit_of dur) (unit_per_sec_of ts),
                \<lparr>content = sample_file 0 ve ts dur, st_size = s, pos = 76,
                 reads = l @ [(0, 76), (64, 4), (68, 8)]\<rparr>)"
proof -
  let ?c = "sample_file 0 ve ts dur"
  have n: "length ?c = 76"
    using assms by (simp add: sample_file_length)
  have h: "move_to_header \<lparr>content = ?c, st_size = s, pos = p, reads = l\<rparr> (int (length ?c))
             = Inr (0, \<lparr>content = ?c, st_size = s, pos = 44, reads = l @ [(0, 76)]\<rparr>)"
    using assms sample_file_header [of ve ts dur s p l] by (simp add: n)
  have v: "?c ! 44 = 1"
    using assms by (simp add: sample_file_bytes nth_append)
  have s: "skip_to_timescale \<lparr>content = ?c, st_size = s, pos = 44, reads = l @ [(0, 76)]\<rparr>
             = Inr (1, \<lparr>content = ?c, st_size = s, pos = 64, reads = l @ [(0, 76)]\<rparr>)"
    using assms by (simp add: skip_to_timescale_def fgetc_def sample_file_length v fseek_def)
  have t: "take 4 (drop 64 ?c) = ts" "take 8 (drop 68 ?c) = dur"
    using assms by (simp_all add: sample_file_bytes)
  have r: "read_fields 1 \<lparr>content = ?c, st_size = s, pos = 64, reads = l @ [(0, 76)]\<rparr>
             = Inr (unit_per_sec_of ts, len_unit_of dur,
                    \<lparr>content = ?c, st_size = s, pos = 76,
                     reads = l @ [(0, 76), (64, 4), (68, 8)]\<rparr>)"
    using assms by (simp add: read_fields_def fread_def t Let_def sample_file_length)
  show ?thesis
    by (simp add: get_mp4_len_def h s r)
qed

lemma replicate_12: "replicate 12 (0::byte) = [0, 0, 0, 0, 0, 0, 0, 0, 0, 0, 0, 0]"
  by (simp add: numeral_eq_Suc)

lemma restart_file_search: "search_block restart_file 0 0 = Inr 0"
  unfolding restart_file_def sample_file_bytes replicate_12 by (simp add: hdr_def)

text \<open>
  C2 at a failing input. In \<open>restart_file\<close> the tag \<^verbatim>\<open>mvhd\<close> is at offset 40 and the byte at
  offset 39 is \<^verbatim>\<open>m\<close>. The streak counter is 1 when the \<^verbatim>\<open>m\<close> of the tag is read; the
  mismatch with \<^verbatim>\<open>v\<close> resets it to 0 and the \<^verbatim>\<open>m\<close> is not looked at again as a possible
  first byte, so the tag is missed: \<open>move_to_header\<close> returns 1 with the pattern present, and
  the program exits with code 30.
\<close>

theorem restart_after_mismatch_misses_header:
  "take 4 (drop 40 restart_file) = ascii ''mvhd''
   \<and> move_to_header \<lparr>content = restart_file, st_size = 64, pos = 12, reads = [(4, 8)]\<rparr>
         (int (length restart_file))
       = Inr (1, \<lparr>content = restart_file, st_size = 64, pos = 64,
                  reads = [(4, 8), (0, 64)]\<rparr>)
   \<and> main [''mp4len'', ''a.mp4''] (one_file (regular_file restart_file))
       = \<lparr>exit_code = 30, stdout = [], stderr = ''Could not find header.'' @ nl\<rparr>"
proof -
  have l: "length restart_file = 64"
    by (simp add: restart_file_def sample_file_length)
  have m: "move_to_header \<lparr>content = restart_file, st_size = 64, pos = 12, reads = [(4, 8)]\<rparr>
         (int (length restart_file))
       = Inr (1, \<lparr>content = restart_file, st_size = 64, pos = 64,
                  reads = [(4, 8), (0, 64)]\<rparr>)"
    by (subst block_loop_single) (simp_all add: l restart_file_search)
  then have g: "get_mp4_len \<lparr>content = restart_file, st_size = length restart_file, pos = 12,
                              reads = [(4, 8)]\<rparr> (int (length restart_file))
       = Inl (Fatal 30 (''Could not find header.'' @ nl))"
    by (simp add: get_mp4_len_def l)
  have "take 4 (drop 40 restart_file) = ascii ''mvhd''"
    by (simp add: restart_file_def sample_file_bytes ascii_def)
  moreover have "main [''mp4len'', ''a.mp4''] (one_file (regular_file restart_file))
       = \<lparr>exit_code = 30, stdout = [], stderr = ''Could not find header.'' @ nl\<rparr>"
    using sample_file_main [OF g [unfolded restart_file_def]] by (simp add: restart_file_def)
  ultimately show ?thesis
    using m by simp
qed

text \<open>
  C1 at two failing inputs, both version-0 headers. With timescale 1000 and duration
  \<open>0x80000000\<close> the program prints 18446744071562068, where the double nearest to
  \<open>D / T\<close> is 2147483.648: the sum of the shifted bytes is an \<^verbatim>\<open>int\<close> and its sign is
  extended. With timescale \<open>2 ^ 24 + 1\<close> and duration 5000 it prints \<open>5000 / 2 ^ 24\<close>: the
  cast to \<^verbatim>\<open>float\<close> has rounded the timescale.
\<close>

theorem large_values_misreported:
  "main [''mp4len'', ''a.mp4''] (one_file (regular_file high_bit_v0_file))
     = \<lparr>exit_code = 0, stdout = [FNum 18446744071562068], stderr = []\<rparr>
   \<and> take 4 (drop 56 high_bit_v0_file) = [0, 0, 0x03, 0xE8]
   \<and> take 4 (drop 60 high_bit_v0_file) = [0x80, 0, 0, 0]
   \<and> double_div 0x80000000 1000 = FNum (1152921504606847 / 536870912)
   \<and> main [''mp4len'', ''a.mp4''] (one_file (regular_file wide_timescale_file))
     = \<lparr>exit_code = 0, stdout = [FNum (625 / 2097152)], stderr = []\<rparr>
   \<and> take 4 (drop 56 wide_timescale_file) = [1, 0, 0, 1]
   \<and> take 4 (drop 60 wide_timescale_file) = [0, 0, 0x13, 0x88]
   \<and> double_div 5000 16777217 = FNum (1374389452800005 / 4611686018427387904)"
proof -
  have a: "len_sec_of 0xFFFFFFFF80000000 1000 = FNum 18446744071562068"
    by code_simp
  have b: "len_sec_of 5000 16777217 = FNum (625 / 2097152)"
    by code_simp
  have c: "double_div 0x80000000 1000 = FNum (1152921504606847 / 536870912)"
    by code_simp
  have d: "double_div 5000 16777217 = FNum (1374389452800005 / 4611686018427387904)"
    by code_simp
  have v: "unit_per_sec_of [0, 0, 0x03, 0xE8] = 1000"
    "len_unit_of [0, 0, 0, 0, 0x80, 0, 0, 0] = 0xFFFFFFFF80000000"
    "unit_per_sec_of [1, 0, 0, 1] = 16777217"
    "len_unit_of [0, 0, 0, 0, 0, 0, 0x13, 0x88] = 5000"
    by (simp_all add: unit_per_sec_of_def len_unit_of_def int_of_bytes_def)
  have "main [''mp4len'', ''a.mp4''] (one_file (regular_file high_bit_v0_file))
     = \<lparr>exit_code = 0, stdout = [FNum 18446744071562068], stderr = []\<rparr>"
    unfolding high_bit_v0_file_def
    by (subst sample_file_main [OF sample_file_decode_v0]) (simp_all add: v a)
  moreover have "main [''mp4len'', ''a.mp4''] (one_file (regular_file wide_timescale_file))
     = \<lparr>exit_code = 0, stdout = [FNum (625 / 2097152)], stderr = []\<rparr>"
    unfolding wide_timescale_file_def
    by (subst sample_file_main [OF sample_file_decode_v0]) (simp_all add: v b)
  moreover have "take 4 (drop 56 high_bit_v0_file) = [0, 0, 0x03, 0xE8]"
    "take 4 (drop 60 high_bit_v0_file) = [0x80, 0, 0, 0]"
    "take 4 (drop 56 wide_timescale_file) = [1, 0, 0, 1]"
    "take 4 (drop 60 wide_timescale_file) = [0, 0, 0x13, 0x88]"
    by (simp_all add: high_bit_v0_file_def wide_timescale_file_def sample_file_bytes)
  ultimately show ?thesis
    using c d by simp
qed

text \<open>
  C3 at a failing input. The version-1 duration bytes \<^verbatim>\<open>00 00 00 01 80 00 00 00\<close> are the
  big-endian value \<open>0x180000000\<close>; the decoder yields \<open>0x80000000\<close>, because the \<^verbatim>\<open>int\<close>
  sum of the low four bytes is negative and its sign extension cancels the \<open>2 ^ 32\<close> of the
  upper half. The program prints 2147483.648 instead of 6442450.944.
\<close>

theorem version1_duration_high_bit:
  "take 8 (drop 68 high_bit_v1_file) = [0, 0, 0, 1, 0x80, 0, 0, 0]
   \<and> be_value [0, 0, 0, 1, 0x80, 0, 0, 0] = 0x180000000
   \<and> read_fields 1 \<lparr>content = high_bit_v1_file, st_size = 76, pos = 64,
                      reads = [(4, 8), (0, 76)]\<rparr>
       = Inr (1000, 0x80000000,
              \<lparr>content = high_bit_v1_file, st_size = 76, pos = 76,
               reads = [(4, 8), (0, 76), (64, 4), (68, 8)]\<rparr>)
   \<and> main [''mp4len'', ''a.mp4''] (one_file (regular_file high_bit_v1_file))
       = \<lparr>exit_code = 0, stdout = [FNum (1152921504606847 / 536870912)], stderr = []\<rparr>"
proof -
  have a: "len_sec_of 0x80000000 1000 = FNum (1152921504606847 / 536870912)"
    by code_simp
  have v: "unit_per_sec_of [0, 0, 0x03, 0xE8] = 1000"
    "len_unit_of [0, 0, 0, 1, 0x80, 0, 0, 0] = 0x80000000"
    by (simp_all add: unit_per_sec_of_def len_unit_of_def int_of_bytes_def)
  have t: "take 4 (drop 64 high_bit_v1_file) = [0, 0, 0x03, 0xE8]"
    "take 8 (drop 68 high_bit_v1_file) = [0, 0, 0, 1, 0x80, 0, 0, 0]"
    by (simp_all add: high_bit_v1_file_def sample_file_bytes)
  have l: "length high_bit_v1_file = 76"
    by (simp add: high_bit_v1_file_def sample_file_length)
  have r: "read_fields 1 \<lparr>content = high_bit_v1_file, st_size = 76, pos = 64,
                           reads = [(4, 8), (0, 76)]\<rparr>
       = Inr (1000, 0x80000000,
              \<lparr>content = high_bit_v1_file, st_size = 76, pos = 76,
               reads = [(4, 8), (0, 76), (64, 4), (68, 8)]\<rparr>)"
    by (simp add: read_fields_def fread_def t l v Let_def)
  have "main [''mp4len'', ''a.mp4''] (one_file (regular_file high_bit_v1_file))
       = \<lparr>exit_code = 0, stdout = [FNum (1152921504606847 / 536870912)], stderr = []\<rparr>"
    unfolding high_bit_v1_file_def
    by (subst sample_file_main [OF sample_file_decode_v1]) (simp_all add: v a)
  moreover have "be_value [0, 0, 0, 1, 0x80, 0, 0, 0] = 0x180000000"
    by (simp add: be_value_def)
  ultimately show ?thesis
    using t r by simp
qed

text \<open>
  C5 as stated fails: for \<open>zero_timescale_file\<close>, a well-formed file whose timescale is 0
  (duration 5000), the program returns 0 and prints infinity.
\<close>

theorem zero_timescale_prints_infinity:
  "take 4 (drop 56 zero_timescale_file) = [0, 0, 0, 0]
   \<and> main [''mp4len'', ''a.mp4''] (one_file (regular_file zero_timescale_file))
       = \<lparr>exit_code = 0, stdout = [FInf], stderr = []\<rparr>"
proof -
  have a: "len_sec_of 5000 0 = FInf"
    by code_simp
  have v: "unit_per_sec_of [0, 0, 0, 0] = 0"
    "len_unit_of [0, 0, 0, 0, 0, 0, 0x13, 0x88] = 5000"
    by (simp_all add: unit_per_sec_of_def len_unit_of_def int_of_bytes_def)
  have "main [''mp4len'', ''a.mp4''] (one_file (regular_file zero_timescale_file))
       = \<lparr>exit_code = 0, stdout = [FInf], stderr = []\<rparr>"
    unfolding zero_timescale_file_def
    by (subst sample_file_main [OF sample_file_decode_v0]) (simp_all add: v a)
  moreover have "take 4 (drop 56 zero_timescale_file) = [0, 0, 0, 0]"
    by (simp add: zero_timescale_file_def sample_file_bytes)
  ultimately show ?thesis
    by simp
qed

text \<open>The conversion of a positive integer to floating point is positive.\<close>

lemma round_even_ge_floor: "\<lfloor>x\<rfloor> \<le> round_even x"
  by (simp add: round_even_def Let_def)

lemma exponent_of_int:
  assumes "0 < n"
  shows "exponent_of (of_int n) = bitlen n - 1"
proof -
  have q: "quotient_of (of_int n) = (n, 1)"
    by simp
  have b1: "bitlen 1 = 1"
    by (simp add: bitlen_alt_def)
  have "0 < bitlen n"
    using assms by (simp add: bitlen_alt_def)
  then have nn: "0 \<le> bitlen n - 1" by simp
  have "2 ^ nat (bitlen n - 1) \<le> n"
    using bitlen_bounds [OF assms] by simp
  then have "(2::rat) ^ nat (bitlen n - 1) \<le> of_int n"
    by (metis of_int_le_iff of_int_numeral of_int_power)
  then have "(2::rat) powi (bitlen n - 1) \<le> of_int n"
    using nn by (simp add: power_int_def)
  then show ?thesis
    by (simp add: exponent_of_def q b1 Let_def)
qed

lemma round_to_int_pos:
  assumes "0 < n" and "0 < p"
  shows "0 < round_to p (of_int n)"
proof -
  define u :: rat where "u = 2 powi (bitlen n - 1 - int p + 1)"
  have u: "0 < u"
    by (simp add: u_def)
  have "0 < bitlen n"
    using assms by (simp add: bitlen_alt_def)
  then have nn: "0 \<le> bitlen n - 1" by simp
  have "2 ^ nat (bitlen n - 1) \<le> n"
    using bitlen_bounds [OF assms(1)] by simp
  then have "(2::rat) ^ nat (bitlen n - 1) \<le> of_int n"
    by (metis of_int_le_iff of_int_numeral of_int_power)
  then have lo: "(2::rat) powi (bitlen n - 1) \<le> of_int n"
    using nn by (simp add: power_int_def)
  have "u \<le> (2::rat) powi (bitlen n - 1)"
    unfolding u_def using assms(2) by (intro power_int_increasing) simp_all
  with lo have "u \<le> of_int n" by simp
  then have "1 \<le> of_int n / u"
    using u by (simp add: le_divide_eq)
  then have "1 \<le> \<lfloor>of_int n / u\<rfloor>"
    by simp
  then have "1 \<le> round_even (of_int n / u)"
    using round_even_ge_floor [of "of_int n / u"] by linarith
  then have "0 < (of_int (round_even (of_int n / u)) :: rat) * u"
    using u by (simp add: zero_less_mult_iff)
  then show ?thesis
    using assms by (simp add: round_to_def exponent_of_int u_def Let_def)
qed

lemma len_sec_of_zero_timescale:
  "len_sec_of len_unit 0 = (if len_unit = 0 then FNaN else FInf)"
proof (cases "len_unit = 0")
  case True
  then show ?thesis
    by (simp add: len_sec_of_def double_div_def to_float_def to_double_def round_to_def)
next
  case False
  then have "uint len_unit \<noteq> 0"
    by (simp add: uint_0_iff)
  then have "0 < uint len_unit"
    using uint_ge_0 [of len_unit] by linarith
  then have "0 < to_double (uint len_unit)"
    unfolding to_double_def by (intro round_to_int_pos) simp_all
  with False show ?thesis
    by (simp add: len_sec_of_def double_div_def to_float_def round_to_def)
qed

text \<open>
  C5, as the code has it. When the file passes the size and signature checks, the header
  is found and its fields are read with a timescale of 0, the program divides by zero
  without a check: it returns 0, writes nothing to standard error and prints infinity, or
  NaN when the duration is 0 as well.
\<close>

theorem zero_timescale_division:
  assumes "2 \<le> length argv" and "fs (argv ! 1) = Some fptr"
    and "MIN_SIZE \<le> int (st_size fptr)"
    and "has_mp4_magic (fptr\<lparr>pos := st_size fptr\<rparr>) = Inr (1, f1)"
    and "move_to_header f1 (int (st_size fptr)) = Inr (0, f2)"
    and "skip_to_timescale f2 = Inr (version, f3)"
    and "read_fields version f3 = Inr (0, len_unit, f4)"
  shows "main argv fs =
           \<lparr>exit_code = 0, stdout = [if len_unit = 0 then FNaN else FInf], stderr = []\<rparr>"
  using assms
  by (simp add: main_def fseek_def ftell_def get_mp4_len_def len_sec_of_zero_timescale)

theorem zero_timescale_division_witness:
  "2 \<le> length [''mp4len'', ''a.mp4'']
   \<and> one_file (regular_file zero_duration_file) ([''mp4len'', ''a.mp4''] ! 1)
       = Some (regular_file zero_duration_file)
   \<and> MIN_SIZE \<le> int (st_size (regular_file zero_duration_file))
   \<and> has_mp4_magic ((regular_file zero_duration_file)
                      \<lparr>pos := st_size (regular_file zero_duration_file)\<rparr>)
       = Inr (1, \<lparr>content = zero_duration_file, st_size = 64, pos = 12, reads = [(4, 8)]\<rparr>)
   \<and> move_to_header \<lparr>content = zero_duration_file, st_size = 64, pos = 12, reads = [(4, 8)]\<rparr>
         (int (st_size (regular_file zero_duration_file)))
       = Inr (0, \<lparr>content = zero_duration_file, st_size = 64, pos = 44,
                  reads = [(4, 8), (0, 64)]\<rparr>)
   \<and> skip_to_timescale \<lparr>content = zero_duration_file, st_size = 64, pos = 44,
                         reads = [(4, 8), (0, 64)]\<rparr>
       = Inr (0, \<lparr>content = zero_duration_file, st_size = 64, pos = 56,
                  reads = [(4, 8), (0, 64)]\<rparr>)
   \<and> read_fields 0 \<lparr>content = zero_duration_file, st_size = 64, pos = 56,
                      reads = [(4, 8), (0, 64)]\<rparr>
       = Inr (0, 0, \<lparr>content = zero_duration_file, st_size = 64, pos = 64,
                     reads = [(4, 8), (0, 64), (56, 4), (60, 4)]\<rparr>)
   \<and> main [''mp4len'', ''a.mp4''] (one_file (regular_file zero_duration_file))
       = \<lparr>exit_code = 0, stdout = [FNaN], stderr = []\<rparr>"
proof -
  let ?r = "regular_file zero_duration_file"
  let ?f1 = "\<lparr>content = zero_duration_file, st_size = 64, pos = 12, reads = [(4, 8)]\<rparr>"
  let ?f2 = "\<lparr>content = zero_duration_file, st_size = 64, pos = 44,
              reads = [(4, 8), (0, 64)]\<rparr>"
  let ?f3 = "\<lparr>content = zero_duration_file, st_size = 64, pos = 56,
              reads = [(4, 8), (0, 64)]\<rparr>"
  let ?f4 = "\<lparr>content = zero_duration_file, st_size = 64, pos = 64,
              reads = [(4, 8), (0, 64), (56, 4), (60, 4)]\<rparr>"
  have l: "length zero_duration_file = 64"
    by (simp add: zero_duration_file_def sample_file_length)
  have z: "st_size ?r = 64"
    by (simp add: regular_file_def l)
  have a: "2 \<le> length [''mp4len'', ''a.mp4'']"
    by simp
  have b: "one_file ?r ([''mp4len'', ''a.mp4''] ! 1) = Some ?r"
    by (simp add: one_file_def)
  have c: "MIN_SIZE \<le> int (st_size ?r)"
    by (simp add: z MIN_SIZE_def)
  have d0: "?r\<lparr>pos := st_size ?r\<rparr>
              = \<lparr>content = zero_duration_file, st_size = 64, pos = 64, reads = []\<rparr>"
    by (simp add: regular_file_def l)
  have d: "has_mp4_magic (?r\<lparr>pos := st_size ?r\<rparr>) = Inr (1, ?f1)"
    unfolding d0 unfolding zero_duration_file_def
    using sample_file_magic [of 0 "replicate 12 0" "[0, 0, 0, 0]" "[0, 0, 0, 0]" 64 64 "[]"]
    by simp
  have e: "move_to_header ?f1 (int (st_size ?r)) = Inr (0, ?f2)"
    unfolding z unfolding zero_duration_file_def
    using sample_file_header [of "replicate 12 0" "[0, 0, 0, 0]" "[0, 0, 0, 0]" 64 12 "[(4, 8)]"]
    by (simp add: sample_file_length)
  have f: "skip_to_timescale ?f2 = Inr (0, ?f3)"
    unfolding zero_duration_file_def by (subst sample_file_skip_v0) simp_all
  have v: "unit_per_sec_of [0, 0, 0, 0] = 0" "len_unit_of [0, 0, 0, 0, 0, 0, 0, 0] = 0"
    by (simp_all add: unit_per_sec_of_def len_unit_of_def int_of_bytes_def)
  have g: "read_fields 0 ?f3 = Inr (0, 0, ?f4)"
    unfolding zero_duration_file_def by (subst sample_file_fields_v0) (simp_all add: v)
  have "main [''mp4len'', ''a.mp4''] (one_file ?r)
          = \<lparr>exit_code = 0, stdout = [FNaN], stderr = []\<rparr>"
    using zero_timescale_division [of "[''mp4len'', ''a.mp4'']" "one_file ?r" ?r ?f1 ?f2 0 ?f3
        0 ?f4, OF a b c d e f g]
    by simp
  then show ?thesis
    using a b c d e f g by (intro conjI)
qed

section \<open>The decoded integers and their conversion\<close>

lemma byte_bound: "0 \<le> uint (b::byte) \<and> uint b < 256"
  using uint_lt2p [of b] by simp

lemma int_of_bytes_eq:
  "int_of_bytes b0 b1 b2 b3
     = word_of_int (uint b3 + uint b2 * 2 ^ 8 + uint b1 * 2 ^ 16 + uint b0 * 2 ^ 24)"
  unfolding int_of_bytes_def push_bit_eq_mult ucast_eq
  by (simp only: wi_hom_syms word_of_int_power_hom [symmetric] word_of_int_numeral)

lemma be_value4: "be_value [b0, b1, b2, b3]
    = uint b3 + uint b2 * 2 ^ 8 + uint b1 * 2 ^ 16 + uint b0 * 2 ^ 24"
  by (simp add: be_value_def)

lemma be_value8: "be_value [b0, b1, b2, b3, b4, b5, b6, b7]
    = be_value [b4, b5, b6, b7] + uint b3 * 2 ^ 32 + uint b2 * 2 ^ 40 + uint b1 * 2 ^ 48
      + uint b0 * 2 ^ 56"
  by (simp add: be_value_def)

lemma be_value4_bounds:
  "0 \<le> be_value [b0, b1, b2, b3]" "be_value [b0, b1, b2, b3] < 2 ^ 32"
  "uint b0 < 128 \<Longrightarrow> be_value [b0, b1, b2, b3] < 2 ^ 31"
  "128 \<le> uint b0 \<Longrightarrow> 2 ^ 31 \<le> be_value [b0, b1, b2, b3]"
proof -
  have b: "0 \<le> uint b0" "uint b0 < 256" "0 \<le> uint b1" "uint b1 < 256"
    "0 \<le> uint b2" "uint b2 < 256" "0 \<le> uint b3" "uint b3 < 256"
    using byte_bound [of b0] byte_bound [of b1] byte_bound [of b2] byte_bound [of b3]
    by blast+
  have p: "(2::int) ^ 8 = 256" "(2::int) ^ 16 = 65536" "(2::int) ^ 24 = 16777216"
    "(2::int) ^ 31 = 2147483648" "(2::int) ^ 32 = 4294967296"
    by simp_all
  show "0 \<le> be_value [b0, b1, b2, b3]"
    unfolding be_value4 p using b by linarith
  show "be_value [b0, b1, b2, b3] < 2 ^ 32"
    unfolding be_value4 p using b by linarith
  show "uint b0 < 128 \<Longrightarrow> be_value [b0, b1, b2, b3] < 2 ^ 31"
    unfolding be_value4 p using b by linarith
  show "128 \<le> uint b0 \<Longrightarrow> 2 ^ 31 \<le> be_value [b0, b1, b2, b3]"
    unfolding be_value4 p using b by linarith
qed

lemma signed_take_bit_31:
  assumes "0 \<le> x" and "x < 2 ^ 32"
  shows "signed_take_bit 31 (x::int) = x - (if x < 2 ^ 31 then 0 else 2 ^ 32)"
proof (cases "x < 2 ^ 31")
  case True
  with assms show ?thesis
    by (simp add: signed_take_bit_int_eq_self)
next
  case False
  have "(x + 2 ^ 31) mod 2 ^ 32 = (x + 2 ^ 31 - 2 ^ 32) mod 2 ^ 32"
    by (simp only: minus_mod_self2)
  also have "\<dots> = x + 2 ^ 31 - 2 ^ 32"
    using assms False by (intro mod_pos_pos_trivial) simp_all
  finally show ?thesis
    using False by (simp add: signed_take_bit_eq_take_bit_shift take_bit_eq_mod)
qed

text \<open>
  What the sign extension does to a 32-bit big-endian field: the value is exact when the
  first byte has its high bit clear, and \<open>2 ^ 32\<close> too small otherwise.
\<close>

lemma scast_int_of_bytes:
  "(scast (int_of_bytes b0 b1 b2 b3) :: 64 word)
     = word_of_int (be_value [b0, b1, b2, b3] - (if uint b0 < 128 then 0 else 2 ^ 32))"
proof -
  let ?x = "be_value [b0, b1, b2, b3]"
  have w: "int_of_bytes b0 b1 b2 b3 = word_of_int ?x"
    by (simp only: int_of_bytes_eq be_value4)
  have "sint (word_of_int ?x :: 32 word) = signed_take_bit 31 ?x"
    by (simp add: sint_sbintrunc')
  then have "sint (int_of_bytes b0 b1 b2 b3) = signed_take_bit 31 ?x"
    by (simp only: w)
  also have "\<dots> = ?x - (if ?x < 2 ^ 31 then 0 else 2 ^ 32)"
    using be_value4_bounds(1,2) by (rule signed_take_bit_31)
  also have "\<dots> = ?x - (if uint b0 < 128 then 0 else 2 ^ 32)"
    using be_value4_bounds(3,4) [of b0 b1 b2 b3] by (cases "uint b0 < 128") simp_all
  finally show ?thesis
    by (simp only: scast_eq)
qed

lemma unit_per_sec_of_value:
  "unit_per_sec_of [t0, t1, t2, t3]
     = word_of_int (be_value [t0, t1, t2, t3] - (if uint t0 < 128 then 0 else 2 ^ 32))"
proof -
  have n: "[t0, t1, t2, t3] ! 0 = t0" "[t0, t1, t2, t3] ! 1 = t1"
    "[t0, t1, t2, t3] ! 2 = t2" "[t0, t1, t2, t3] ! 3 = t3"
    by simp_all
  show ?thesis
    unfolding unit_per_sec_of_def n by (rule scast_int_of_bytes)
qed

lemma len_unit_of_value:
  "len_unit_of [b0, b1, b2, b3, b4, b5, b6, b7]
     = word_of_int (be_value [b0, b1, b2, b3, b4, b5, b6, b7]
                    - (if uint b4 < 128 then 0 else 2 ^ 32))"
proof -
  let ?buf = "[b0, b1, b2, b3, b4, b5, b6, b7]"
  have n: "?buf ! 0 = b0" "?buf ! 1 = b1" "?buf ! 2 = b2" "?buf ! 3 = b3"
    "?buf ! 4 = b4" "?buf ! 5 = b5" "?buf ! 6 = b6" "?buf ! 7 = b7"
    by simp_all
  have "len_unit_of ?buf
      = scast (int_of_bytes b4 b5 b6 b7)
        + word_of_int (uint b3) * 2 ^ 32 + word_of_int (uint b2) * 2 ^ 40
        + word_of_int (uint b1) * 2 ^ 48 + word_of_int (uint b0) * 2 ^ 56"
    unfolding len_unit_of_def n push_bit_eq_mult ucast_eq by (rule refl)
  also have "\<dots> = word_of_int (be_value [b4, b5, b6, b7] - (if uint b4 < 128 then 0 else 2 ^ 32)
        + uint b3 * 2 ^ 32 + uint b2 * 2 ^ 40 + uint b1 * 2 ^ 48 + uint b0 * 2 ^ 56)"
    unfolding scast_int_of_bytes
    by (simp only: wi_hom_syms word_of_int_power_hom [symmetric] word_of_int_numeral)
  also have "be_value [b4, b5, b6, b7] - (if uint b4 < 128 then 0 else 2 ^ 32)
        + uint b3 * 2 ^ 32 + uint b2 * 2 ^ 40 + uint b1 * 2 ^ 48 + uint b0 * 2 ^ 56
      = be_value ?buf - (if uint b4 < 128 then 0 else 2 ^ 32)"
    unfolding be_value8 by (simp only: algebra_simps)
  finally show ?thesis .
qed

lemma round_even_of_int: "round_even (of_int m) = m"
  by (simp add: round_even_def)

text \<open>An integer with at most \<open>p\<close> significant bits is converted without loss.\<close>

lemma round_to_int_exact:
  assumes "0 \<le> n" and "n < 2 ^ p"
  shows "round_to p (of_int n) = of_int n"
proof (cases "n = 0")
  case True
  then show ?thesis by (simp add: round_to_def)
next
  case False
  with assms have pos: "0 < n" by simp
  have le: "bitlen n \<le> int p"
    using assms(2) by (simp add: bitlen_le_iff_power)
  define d where "d = nat (int p - bitlen n)"
  have d: "bitlen n - 1 - int p + 1 = - int d"
    using le by (simp add: d_def)
  have u: "(2::rat) powi (- int d) = 1 / 2 ^ d"
    by (simp add: power_int_minus_divide)
  have "of_int n / (1 / (2::rat) ^ d) = of_int (n * 2 ^ d)"
    by simp
  then have r: "round_even (of_int n / (1 / (2::rat) ^ d)) = n * 2 ^ d"
    by (simp only: round_even_of_int)
  have "round_to p (of_int n)
          = of_int (round_even (of_int n / (1 / (2::rat) ^ d))) * (1 / 2 ^ d)"
    using False unfolding round_to_def exponent_of_int [OF pos] d u Let_def by simp
  also have "\<dots> = of_int n"
    unfolding r by simp
  finally show ?thesis .
qed

lemma uint_word_of_int_64:
  "0 \<le> x \<Longrightarrow> x < 2 ^ 64 \<Longrightarrow> uint (word_of_int x :: 64 word) = x"
  by (simp add: uint_word_of_int take_bit_int_eq_self flip: take_bit_eq_mod)

text \<open>
  Where the decoder and the division are exact: a version-0 header whose timescale is
  positive and below \<open>2 ^ 24\<close> and whose duration is below \<open>2 ^ 31\<close> gives the double nearest
  to \<open>D / T\<close>.
\<close>

lemma small_values_exact:
  assumes T: "be_value [t0, t1, t2, t3] \<noteq> 0" "be_value [t0, t1, t2, t3] < 2 ^ 24"
    and D: "uint d0 < 128"
  shows "len_sec_of (len_unit_of ([0, 0, 0, 0] @ [d0, d1, d2, d3]))
           (unit_per_sec_of [t0, t1, t2, t3])
         = FNum (round_to 53 (of_int (be_value [d0, d1, d2, d3])
                              / of_int (be_value [t0, t1, t2, t3])))"
proof -
  let ?T = "be_value [t0, t1, t2, t3]" and ?D = "be_value [d0, d1, d2, d3]"
  have t0: "uint t0 < 128"
  proof (rule ccontr)
    assume "\<not> uint t0 < 128"
    then have "2 ^ 31 \<le> ?T"
      by (intro be_value4_bounds(4)) simp
    with T(2) show False by simp
  qed
  have Tb: "0 \<le> ?T" and Db: "0 \<le> ?D" "?D < 2 ^ 31"
    using be_value4_bounds(1) [of t0 t1 t2 t3] be_value4_bounds(1) [of d0 d1 d2 d3]
      be_value4_bounds(3) [OF D, of d1 d2 d3] by simp_all
  have "unit_per_sec_of [t0, t1, t2, t3] = word_of_int ?T"
    using t0 by (simp only: unit_per_sec_of_value if_True diff_0_right)
  then have u: "uint (unit_per_sec_of [t0, t1, t2, t3]) = ?T"
    using Tb T(2) by (simp only: ) (rule uint_word_of_int_64, simp_all)
  have z: "uint (0::byte) < 128"
    by simp
  have "be_value [0, 0, 0, 0, d0, d1, d2, d3] = ?D"
    unfolding be_value8 by simp
  moreover have "len_unit_of ([0, 0, 0, 0] @ [d0, d1, d2, d3])
      = word_of_int (be_value [0, 0, 0, 0, d0, d1, d2, d3] - (if uint d0 < 128 then 0 else 2 ^ 32))"
    unfolding append_Cons append_Nil by (rule len_unit_of_value)
  ultimately have "len_unit_of ([0, 0, 0, 0] @ [d0, d1, d2, d3]) = word_of_int ?D"
    using D by (simp only: if_True diff_0_right)
  then have l: "uint (len_unit_of ([0, 0, 0, 0] @ [d0, d1, d2, d3])) = ?D"
    using Db by (simp only: ) (rule uint_word_of_int_64, simp_all)
  have f: "to_float ?T = of_int ?T"
    unfolding to_float_def using Tb T(2) by (rule round_to_int_exact)
  have "?D < 2 ^ 53"
    using Db(2) by simp
  then have d: "to_double ?D = of_int ?D"
    unfolding to_double_def using Db(1) by (intro round_to_int_exact)
  show ?thesis
    unfolding len_sec_of_def u l f d using T(1) by (simp add: double_div_def)
qed

section \<open>The exit codes of the program\<close>

lemma skip_to_timescale_fatal:
  "skip_to_timescale f = Inl e \<Longrightarrow> exit_status e = 31 \<or> exit_status e = 32"
  by (auto simp: skip_to_timescale_def split: prod.splits if_splits option.splits)

lemma read_fields_fatal:
  "read_fields v f = Inl e \<Longrightarrow> exit_status e = 33 \<or> exit_status e = 34"
  by (auto simp: read_fields_def Let_def split: prod.splits if_splits)

lemma get_mp4_len_fatal:
  assumes "get_mp4_len f fsize = Inl e"
  shows "exit_status e \<in> {21, 22, 23, 24, 30, 31, 32, 33, 34}"
proof (cases "move_to_header f fsize")
  case (Inl e')
  with assms have "e' = e" by (simp add: get_mp4_len_def)
  with Inl block_loop_fatal [of f fsize "n_blocks_of fsize" 0 e] show ?thesis
    by (auto simp: move_to_header_def)
next
  case (Inr rf)
  obtain r f1 where rf: "rf = (r, f1)" by (cases rf)
  show ?thesis
  proof (cases "r = 0")
    case False
    with assms Inr rf show ?thesis by (auto simp: get_mp4_len_def)
  next
    case True
    show ?thesis
    proof (cases "skip_to_timescale f1")
      case (Inl e')
      with assms Inr rf True skip_to_timescale_fatal [of f1 e'] show ?thesis
        by (auto simp: get_mp4_len_def)
    next
      case sk: (Inr vf)
      obtain v f2 where vf: "vf = (v, f2)" by (cases vf)
      show ?thesis
      proof (cases "read_fields v f2")
        case (Inl e')
        with assms Inr rf True sk vf read_fields_fatal [of v f2 e'] show ?thesis
          by (auto simp: get_mp4_len_def)
      next
        case (Inr x)
        with assms \<open>move_to_header f fsize = Inr rf\<close> rf True sk vf show ?thesis
          by (auto simp: get_mp4_len_def split: prod.splits)
      qed
    qed
  qed
qed

text \<open>
  The read of the signature is short exactly when the stream delivers fewer than 12 bytes,
  whatever size the file system reports for it.
\<close>

lemma has_mp4_magic_short:
  assumes "length (content fptr) < 12"
  shows "has_mp4_magic fptr = Inl (Fatal 11 (''Problem reading file'' @ nl))"
proof -
  have seek: "fseek fptr 4 SEEK_SET = Some (fptr\<lparr>pos := 4\<rparr>)"
    by (simp add: fseek_def)
  obtain c f2 where rd: "fread (fptr\<lparr>pos := 4\<rparr>) 8 = (c, f2)"
    by (cases "fread (fptr\<lparr>pos := 4\<rparr>) 8")
  have "length (fst (fread (fptr\<lparr>pos := 4\<rparr>) 8)) \<noteq> 8"
    using assms by (simp add: fread_length)
  then have "length c \<noteq> 8"
    by (simp add: rd)
  then show ?thesis
    by (simp add: has_mp4_magic_def seek rd)
qed

lemma main_seek_end:
  "fseek fptr 0 SEEK_END = Some (fptr\<lparr>pos := st_size fptr\<rparr>)"
  by (simp add: fseek_def)

lemma main_short_read:
  assumes "2 \<le> length argv" and "fs (argv ! 1) = Some fptr"
    and "MIN_SIZE \<le> int (st_size fptr)" and "length (content fptr) < 12"
  shows "main argv fs
           = \<lparr>exit_code = 11, stdout = [], stderr = ''Problem reading file'' @ nl\<rparr>"
proof -
  have "has_mp4_magic (fptr\<lparr>pos := st_size fptr\<rparr>)
          = Inl (Fatal 11 (''Problem reading file'' @ nl))"
    using assms(4) by (intro has_mp4_magic_short) simp
  with assms(1-3) show ?thesis
    by (simp add: main_def main_seek_end ftell_def)
qed

lemma main_full_read:
  assumes "2 \<le> length argv \<longrightarrow>
             (\<forall>fptr. fs (argv ! 1) = Some fptr \<longrightarrow> MIN_SIZE \<le> int (st_size fptr)
                \<longrightarrow> 12 \<le> length (content fptr))"
  shows "exit_code (main argv fs) \<in> {0, 1, 2, 3, 4, 21, 22, 23, 24, 30, 31, 32, 33, 34}"
proof (cases "int (length argv) < 2")
  case True
  then show ?thesis by (simp add: main_def)
next
  case args: False
  show ?thesis
  proof (cases "fs (argv ! 1)")
    case None
    with args show ?thesis by (simp add: main_def)
  next
    case (Some fptr)
    let ?f = "fptr\<lparr>pos := st_size fptr\<rparr>"
    show ?thesis
    proof (cases "int (st_size fptr) < MIN_SIZE")
      case True
      with args Some show ?thesis
        by (simp add: main_def main_seek_end ftell_def)
    next
      case False
      with assms args Some have "12 \<le> length (content ?f)"
        by simp
      from has_mp4_magic_result [OF this] obtain r f1 where
        m: "has_mp4_magic ?f = Inr (r, f1)"
        by blast
      show ?thesis
      proof (cases "r = 0")
        case True
        with args Some False m show ?thesis
          by (simp add: main_def main_seek_end ftell_def)
      next
        case r: False
        show ?thesis
        proof (cases "get_mp4_len f1 (int (st_size fptr))")
          case (Inl e)
          from get_mp4_len_fatal [OF this] args Some False m r Inl show ?thesis
            by (simp add: main_def main_seek_end ftell_def)
        next
          case (Inr x)
          with args Some False m r show ?thesis
            by (simp add: main_def main_seek_end ftell_def split: prod.splits)
        qed
      qed
    qed
  qed
qed

lemma main_exit_codes:
  "exit_code (main argv fs) \<in> {0, 1, 2, 3, 4, 11, 21, 22, 23, 24, 30, 31, 32, 33, 34}"
proof (cases "2 \<le> length argv \<and> (\<exists>fptr. fs (argv ! 1) = Some fptr
                \<and> MIN_SIZE \<le> int (st_size fptr) \<and> length (content fptr) < 12)")
  case True
  then obtain fptr where "2 \<le> length argv" "fs (argv ! 1) = Some fptr"
    "MIN_SIZE \<le> int (st_size fptr)" "length (content fptr) < 12"
    by blast
  from main_short_read [of argv fs fptr, OF this] show ?thesis
    by simp
next
  case False
  then have "2 \<le> length argv \<longrightarrow>
             (\<forall>fptr. fs (argv ! 1) = Some fptr \<longrightarrow> MIN_SIZE \<le> int (st_size fptr)
                \<longrightarrow> 12 \<le> length (content fptr))"
    by (auto simp: not_less)
  from main_full_read [of argv fs, OF this] show ?thesis
    by auto
qed

lemma main_exit_11:
  "exit_code (main argv fs) = 11 \<longleftrightarrow>
     2 \<le> length argv \<and> (\<exists>fptr. fs (argv ! 1) = Some fptr
        \<and> MIN_SIZE \<le> int (st_size fptr) \<and> length (content fptr) < 12)"
proof (cases "2 \<le> length argv \<and> (\<exists>fptr. fs (argv ! 1) = Some fptr
                \<and> MIN_SIZE \<le> int (st_size fptr) \<and> length (content fptr) < 12)")
  case True
  then obtain fptr where "2 \<le> length argv" "fs (argv ! 1) = Some fptr"
    "MIN_SIZE \<le> int (st_size fptr)" "length (content fptr) < 12"
    by blast
  from main_short_read [of argv fs fptr, OF this] True show ?thesis
    by simp
next
  case False
  then have "2 \<le> length argv \<longrightarrow>
             (\<forall>fptr. fs (argv ! 1) = Some fptr \<longrightarrow> MIN_SIZE \<le> int (st_size fptr)
                \<longrightarrow> 12 \<le> length (content fptr))"
    by (auto simp: not_less)
  from main_full_read [of argv fs, OF this] have "exit_code (main argv fs) \<noteq> 11"
    by auto
  with False show ?thesis
    by simp
qed

text \<open>
  C10 as stated fails on a successfully opened stream that is not a regular file. For a
  directory the seek to the end succeeds and \<^verbatim>\<open>ftell\<close> reports \<open>2 ^ 63 - 1\<close>, which passes
  the size check; the read of the signature then delivers no byte, and the program takes
  the branch of line 45 and exits with code 11.
\<close>

theorem directory_reaches_exit_11:
  "one_file directory ''a.mp4'' = Some directory
   \<and> fseek directory 0 SEEK_END = Some (directory\<lparr>pos := 2 ^ 63 - 1\<rparr>)
   \<and> MIN_SIZE \<le> ftell (directory\<lparr>pos := 2 ^ 63 - 1\<rparr>)
   \<and> fst (fread (directory\<lparr>pos := 4\<rparr>) 8) = []
   \<and> has_mp4_magic (directory\<lparr>pos := 2 ^ 63 - 1\<rparr>)
       = Inl (Fatal 11 (''Problem reading file'' @ nl))
   \<and> main [''mp4len'', ''a.mp4''] (one_file directory)
       = \<lparr>exit_code = 11, stdout = [], stderr = ''Problem reading file'' @ nl\<rparr>"
proof -
  have s: "st_size directory = 2 ^ 63 - 1" and c: "content directory = []"
    by (simp_all add: directory_def)
  have a: "one_file directory ''a.mp4'' = Some directory"
    by (simp add: one_file_def)
  have b: "fseek directory 0 SEEK_END = Some (directory\<lparr>pos := 2 ^ 63 - 1\<rparr>)"
    unfolding main_seek_end s by (rule refl)
  have d: "MIN_SIZE \<le> ftell (directory\<lparr>pos := 2 ^ 63 - 1\<rparr>)"
    by (simp add: ftell_def MIN_SIZE_def)
  have e: "fst (fread (directory\<lparr>pos := 4\<rparr>) 8) = []"
    by (simp add: fread_def c)
  have f: "has_mp4_magic (directory\<lparr>pos := 2 ^ 63 - 1\<rparr>)
             = Inl (Fatal 11 (''Problem reading file'' @ nl))"
    by (rule has_mp4_magic_short) (simp add: c)
  have m: "MIN_SIZE \<le> int (st_size directory)"
    unfolding s by (simp add: MIN_SIZE_def)
  have g: "main [''mp4len'', ''a.mp4''] (one_file directory)
       = \<lparr>exit_code = 11, stdout = [], stderr = ''Problem reading file'' @ nl\<rparr>"
    by (rule main_short_read [where fptr = directory]) (simp_all add: a m c)
  show ?thesis
    by (intro conjI a b d e f g)
qed

text \<open>
  C10, as the code has it. The seek to offset 4 succeeds. When the stream delivers at
  least 12 bytes (a regular file of at least 51 bytes does: it delivers as many bytes as
  the size reported for it), the read of 8 bytes is complete and \<open>has_mp4_magic\<close> returns
  0 or 1; when it delivers fewer than 12 bytes, \<open>has_mp4_magic\<close> exits with code 11. No
  run of the program ends with exit code 10, and a run ends with exit code 11 exactly when
  the file is opened, the size reported for it is at least 51 and it delivers fewer than 12
  bytes.
\<close>

theorem sniffer_reads_succeed:
  "(12 \<le> length (content fptr)
      \<or> (length (content fptr) = st_size fptr \<and> MIN_SIZE \<le> int (st_size fptr)) \<longrightarrow>
      (\<exists>f1. fseek fptr 4 SEEK_SET = Some f1 \<and> length (fst (fread f1 8)) = 8)
      \<and> (\<exists>r f2. has_mp4_magic fptr = Inr (r, f2) \<and> (r = 0 \<or> r = 1)))
   \<and> (length (content fptr) < 12 \<longrightarrow>
      (\<exists>f1. fseek fptr 4 SEEK_SET = Some f1 \<and> length (fst (fread f1 8)) < 8)
      \<and> has_mp4_magic fptr = Inl (Fatal 11 (''Problem reading file'' @ nl)))
   \<and> exit_code (main argv fs) \<noteq> 10
   \<and> (exit_code (main argv fs) = 11 \<longleftrightarrow>
        2 \<le> length argv \<and> (\<exists>f. fs (argv ! 1) = Some f
           \<and> MIN_SIZE \<le> int (st_size f) \<and> length (content f) < 12))"
proof (intro conjI impI)
  assume "12 \<le> length (content fptr)
      \<or> (length (content fptr) = st_size fptr \<and> MIN_SIZE \<le> int (st_size fptr))"
  then have len: "12 \<le> length (content fptr)"
    by (auto simp: MIN_SIZE_def)
  have "fseek fptr 4 SEEK_SET = Some (fptr\<lparr>pos := 4\<rparr>)"
    by (simp add: fseek_def)
  moreover have "length (fst (fread (fptr\<lparr>pos := 4\<rparr>) 8)) = 8"
    using len by (simp add: fread_full)
  ultimately show "\<exists>f1. fseek fptr 4 SEEK_SET = Some f1 \<and> length (fst (fread f1 8)) = 8"
    by blast
  show "\<exists>r f2. has_mp4_magic fptr = Inr (r, f2) \<and> (r = 0 \<or> r = 1)"
    unfolding has_mp4_magic_result [OF len] by simp
next
  assume short: "length (content fptr) < 12"
  have "fseek fptr 4 SEEK_SET = Some (fptr\<lparr>pos := 4\<rparr>)"
    by (simp add: fseek_def)
  moreover have "length (fst (fread (fptr\<lparr>pos := 4\<rparr>) 8)) < 8"
    using short by (simp add: fread_length)
  ultimately show "\<exists>f1. fseek fptr 4 SEEK_SET = Some f1 \<and> length (fst (fread f1 8)) < 8"
    by blast
  show "has_mp4_magic fptr = Inl (Fatal 11 (''Problem reading file'' @ nl))"
    using short by (rule has_mp4_magic_short)
next
  show "exit_code (main argv fs) \<noteq> 10"
    using main_exit_codes [of argv fs] by auto
next
  show "exit_code (main argv fs) = 11 \<longleftrightarrow>
        2 \<le> length argv \<and> (\<exists>f. fs (argv ! 1) = Some f
           \<and> MIN_SIZE \<le> int (st_size f) \<and> length (content f) < 12)"
    by (rule main_exit_11)
qed

theorem sniffer_reads_succeed_witness:
  "length (content (regular_file v0_file)) = st_size (regular_file v0_file)
   \<and> MIN_SIZE \<le> int (st_size (regular_file v0_file))
   \<and> (\<exists>f1. fseek (regular_file v0_file) 4 SEEK_SET = Some f1 \<and> length (fst (fread f1 8)) = 8)
   \<and> (\<exists>r f2. has_mp4_magic (regular_file v0_file) = Inr (r, f2) \<and> (r = 0 \<or> r = 1))
   \<and> length (content directory) < 12
   \<and> (\<exists>f1. fseek directory 4 SEEK_SET = Some f1 \<and> length (fst (fread f1 8)) < 8)
   \<and> has_mp4_magic directory = Inl (Fatal 11 (''Problem reading file'' @ nl))
   \<and> exit_code (main [''mp4len'', ''a.mp4''] (one_file (regular_file v0_file))) \<noteq> 10
   \<and> exit_code (main [''mp4len'', ''a.mp4''] (one_file (regular_file v0_file))) \<noteq> 11
   \<and> exit_code (main [''mp4len'', ''a.mp4''] (one_file directory)) = 11"
proof -
  let ?v = "regular_file v0_file"
  let ?argv = "[''mp4len'', ''a.mp4'']"
  have l: "length v0_file = 64"
    by (simp add: v0_file_def sample_file_length)
  have h1: "length (content ?v) = st_size ?v"
    by (simp add: regular_file_def)
  have h2: "MIN_SIZE \<le> int (st_size ?v)"
    by (simp add: regular_file_def l MIN_SIZE_def)
  have h: "12 \<le> length (content ?v) \<or> (length (content ?v) = st_size ?v
             \<and> MIN_SIZE \<le> int (st_size ?v))"
    using h1 h2 by simp
  have k: "length (content directory) < 12"
    by (simp add: directory_def)
  have m: "MIN_SIZE \<le> int (st_size directory)"
    by (simp add: directory_def MIN_SIZE_def)
  note w = sniffer_reads_succeed [of ?v ?argv "one_file ?v"]
  note d = sniffer_reads_succeed [of directory ?argv "one_file directory"]
  note w1 = w [THEN conjunct1, rule_format, OF h]
  note d2 = d [THEN conjunct2, THEN conjunct1, rule_format, OF k]
  note w3 = w [THEN conjunct2, THEN conjunct2, THEN conjunct1]
  note w4 = w [THEN conjunct2, THEN conjunct2, THEN conjunct2]
  note d4 = d [THEN conjunct2, THEN conjunct2, THEN conjunct2]
  have "\<not> (\<exists>f. one_file ?v (?argv ! 1) = Some f
           \<and> MIN_SIZE \<le> int (st_size f) \<and> length (content f) < 12)"
    by (simp add: one_file_def regular_file_def l)
  with w4 have n11: "exit_code (main ?argv (one_file ?v)) \<noteq> 11"
    by simp
  have "2 \<le> length ?argv \<and> (\<exists>f. one_file directory (?argv ! 1) = Some f
           \<and> MIN_SIZE \<le> int (st_size f) \<and> length (content f) < 12)"
    using k m by (simp add: one_file_def)
  with d4 have e11: "exit_code (main ?argv (one_file directory)) = 11"
    by simp
  show ?thesis
    by (intro conjI h1 h2 conjunct1 [OF w1] conjunct2 [OF w1] k conjunct1 [OF d2]
        conjunct2 [OF d2] w3 n11 e11)
qed

end
